theory Spec2Isabelle
  imports Complex_Main "HOL-Library.Sublist"
begin

section \<open>The adaptive transfer pipeline of \<^verbatim>\<open>download-channel.js\<close>\<close>

text \<open>
  The development embeds the \<^verbatim>\<open>DownloadChannel\<close> class of
  \<^verbatim>\<open>src/java/scripts/download-channel.js\<close> and the helpers
  \<^verbatim>\<open>getMediaPath\<close>, \<^verbatim>\<open>checkFileExist\<close>,
  \<^verbatim>\<open>getLastSelection\<close> and \<^verbatim>\<open>updateLastSelection\<close> of
  \<^verbatim>\<open>src/java/modules/messages.js\<close>.

  Conventions. A JavaScript \<^verbatim>\<open>Number\<close> that holds a speed, a factor or a
  duration is a \<^typ>\<open>real\<close> (the rounding of IEEE doubles is not modelled; every
  bound proved below comes from \<^verbatim>\<open>Math.min\<close>, \<^verbatim>\<open>Math.max\<close> and
  comparisons, which are exact). Message ids and byte counts are \<^typ>\<open>int\<close> and
  \<^typ>\<open>nat\<close>. An \<^verbatim>\<open>Error\<close> is its message, a \<^typ>\<open>string\<close>.
  \<^verbatim>\<open>Date.now()\<close> is the field \<open>clock\<close> of the state, and every
  \<^verbatim>\<open>setTimeout\<close> wait is appended to the field \<open>slept\<close> and advances the
  clock. Calls that leave the process (the Telegram client, the file system) are answered
  by explicit environment components of the state.
\<close>

subsection \<open>Outcomes of calls that may throw\<close>

datatype 'a outcome = Returned 'a | Threw string

subsection \<open>The speed monitor\<close>

record speed_monitor =
  startTime :: real
  totalBytes :: real
  currentSpeed :: real
  targetSpeed :: real
  speedHistory :: "real list"
  stabilizationFactor :: real
  consecutiveLowSpeed :: nat
  lastSpeedCheck :: real
  peakSpeed :: real
  averageSpeed :: real
  speedVariance :: real
  currentFileSize :: real

text \<open>
  Observation points of a run, kept in the order in which they happen: the \<open>n\<close>-th
  invocation of \<^verbatim>\<open>operation()\<close> by \<^verbatim>\<open>retryOperation\<close>, and, in the
  sequential upload queue, the assignment \<^verbatim>\<open>uploadStarted = true\<close>, every call
  of \<^verbatim>\<open>uploadMessage\<close> and the assignment \<^verbatim>\<open>uploadCompleted = true\<close>,
  each with the message id of the record concerned.
\<close>

datatype event = Attempt nat | UploadStarted int | UploadCall int | UploadCompleted int

text \<open>
  What a path of the local file system holds: a regular file or a directory, each with
  the size \<^verbatim>\<open>fs.statSync\<close> reports, or an entry that
  \<^verbatim>\<open>fs.existsSync\<close> sees but \<^verbatim>\<open>fs.statSync\<close> cannot read.
\<close>

datatype fs_entry = File nat | Directory nat | Unreadable

text \<open>
  The object kept in \<^verbatim>\<open>export/last_selection.json\<close>. The offset is
  \<open>None\<close> when it is absent or \<^verbatim>\<open>null\<close>; \<^verbatim>\<open>JSON.stringify\<close> writes
  \<^verbatim>\<open>-Infinity\<close> as \<^verbatim>\<open>null\<close>. The channel is kept as its only reader,
  \<^verbatim>\<open>Number(lastSelection.channelId)\<close>, takes it: \<open>None\<close> when it is absent
  (\<^verbatim>\<open>NaN\<close>), the number otherwise, a \<^verbatim>\<open>null\<close> being the number 0.
\<close>

record last_selection =
  messageOffsetId :: "int option"
  channelId :: "int option"

text \<open>
  The fields of \<^verbatim>\<open>DownloadChannel\<close> that the modelled methods read or write,
  followed by the environment: the wall clock, the timer waits, the file system (a flat
  map from path to entry, and the directories that cannot be created), the selection file
  (\<open>None\<close> when it is missing or unreadable), whether writing it fails, every
  object written to it so far, and the log of observation points.
\<close>

record downloader =
  speedMonitor :: "speed_monitor option"
  speedBoostMode :: bool
  floodWaitHistory :: "(real \<times> real) list"
  consecutiveFloodWaits :: nat
  adaptiveDelayMultiplier :: real
  optimalRequestRate :: real
  uploadMode :: bool
  targetChannelId :: "int option"
  totalDownloaded :: nat
  totalUploaded :: nat
  batchCounter :: nat
  consecutiveFileRefErrors :: nat
  selectiveMode :: bool
  startFromMessageId :: int
  clock :: real
  slept :: "real list"
  files :: "string \<rightharpoonup> fs_entry"
  mkdirFails :: "string \<Rightarrow> bool"
  lastSelectionFile :: "last_selection option"
  writeFails :: bool
  selectionWrites :: "last_selection list"
  events :: "event list"

definition TARGET_SPEED_MBPS :: real where
  "TARGET_SPEED_MBPS = 500"

definition SPEED_STABILIZATION_DELAY :: real where
  "SPEED_STABILIZATION_DELAY = 20"

definition RATE_LIMIT_DELAY_CONFIG :: real where
  "RATE_LIMIT_DELAY_CONFIG = 20"

text \<open>The object literal assigned by \<^verbatim>\<open>initializeSpeedMonitor\<close>.\<close>

definition initializeSpeedMonitor :: "downloader \<Rightarrow> downloader" where
  "initializeSpeedMonitor d =
     d\<lparr>speedMonitor := Some
        \<lparr>startTime = clock d, totalBytes = 0, currentSpeed = 0,
         targetSpeed = TARGET_SPEED_MBPS * 1024 * 1024, speedHistory = [],
         stabilizationFactor = 3.0, consecutiveLowSpeed = 0,
         lastSpeedCheck = clock d, peakSpeed = 0, averageSpeed = 0,
         speedVariance = 0, currentFileSize = 0\<rparr>\<rparr>"

text \<open>
  \<^verbatim>\<open>speedMonitor.updateSpeed(bytes)\<close>. The closure writes both the monitor and
  \<^verbatim>\<open>this.speedBoostMode\<close>; it is only reachable once the monitor exists. The
  four stages follow the source: current speed and peak, the rolling history of ten
  samples and its average, the three-way adjustment of the factor, the emergency boost.
\<close>

definition updateSpeed :: "real \<Rightarrow> downloader \<Rightarrow> downloader" where
  "updateSpeed bytes d =
     (case speedMonitor d of
        None \<Rightarrow> d
      | Some m \<Rightarrow>
          let now = clock d;
              elapsed = (now - startTime m) / 1000;
              total = totalBytes m + bytes;
              cur = (if elapsed > 0 then (total * 8) / elapsed else 0);
              peak = (if cur > peakSpeed m then cur else peakSpeed m);
              pushed = speedHistory m @ [cur];
              hist = (if length pushed > 10 then tl pushed else pushed);
              avgSpeed = sum_list hist / real (length hist);
              currentSpeedMbps = cur / 1000000;
              (f1, low1, boost1) =
                (if currentSpeedMbps < 25 then
                   (min 5.0 (stabilizationFactor m * 1.25),
                    consecutiveLowSpeed m + 1, True)
                 else if currentSpeedMbps \<ge> 30 then
                   (max 2.0 (stabilizationFactor m * 0.95), 0, False)
                 else
                   (min 4.0 (stabilizationFactor m * 1.15),
                    consecutiveLowSpeed m, speedBoostMode d));
              (f2, low2, boost2) =
                (if low1 > 3 then (5.0, 0, True) else (f1, low1, boost1))
          in d\<lparr>speedMonitor := Some
                 (m\<lparr>totalBytes := total, currentSpeed := cur, peakSpeed := peak,
                    speedHistory := hist, averageSpeed := avgSpeed,
                    stabilizationFactor := f2, consecutiveLowSpeed := low2\<rparr>),
               speedBoostMode := boost2\<rparr>)"

text \<open>
  A run of the monitor: between two samples the wall clock moves to any value, so each
  sample is a pair of the clock reading at the call and the byte count passed.
\<close>

fun feedSamples :: "(real \<times> real) list \<Rightarrow> downloader \<Rightarrow> downloader" where
  "feedSamples [] d = d"
| "feedSamples ((t, bytes) # rest) d = feedSamples rest (updateSpeed bytes (d\<lparr>clock := t\<rparr>))"

definition factorWithin :: "real \<Rightarrow> real \<Rightarrow> downloader \<Rightarrow> bool" where
  "factorWithin lo hi d =
     (case speedMonitor d of
        None \<Rightarrow> False
      | Some m \<Rightarrow> lo \<le> stabilizationFactor m \<and> stabilizationFactor m \<le> hi)"

definition freshDownloader :: downloader where
  "freshDownloader =
     \<lparr>speedMonitor = None, speedBoostMode = False, floodWaitHistory = [],
      consecutiveFloodWaits = 0, adaptiveDelayMultiplier = 0.5,
      optimalRequestRate = 50, uploadMode = False, targetChannelId = None,
      totalDownloaded = 0, totalUploaded = 0, batchCounter = 0,
      consecutiveFileRefErrors = 0, selectiveMode = False, startFromMessageId = 0,
      clock = 0, slept = [], files = Map.empty, mkdirFails = (\<lambda>p. False),
      lastSelectionFile = None, writeFails = False, selectionWrites = [], events = []\<rparr>"

subsection \<open>Strings of error messages\<close>

text \<open>\<^verbatim>\<open>String.prototype.includes\<close>.\<close>

fun str_includes :: "string \<Rightarrow> string \<Rightarrow> bool" where
  "str_includes [] sub = (sub = [])"
| "str_includes (c # cs) sub = (prefix sub (c # cs) \<or> str_includes cs sub)"

definition isDigit :: "char \<Rightarrow> bool" where
  "isDigit c = (c \<in> set ''0123456789'')"

definition digitVal :: "char \<Rightarrow> nat" where
  "digitVal c = of_char c - 48"

text \<open>
  \<^verbatim>\<open>message.match(/\d+/)?.[0]\<close>: the first maximal run of decimal digits, absent
  when the message has no digit; and \<^verbatim>\<open>parseInt\<close> on a string of digits.
\<close>

definition matchDigits :: "string \<Rightarrow> string option" where
  "matchDigits msg =
     (let run = takeWhile isDigit (dropWhile (\<lambda>c. \<not> isDigit c) msg)
      in if run = [] then None else Some run)"

definition parseInt :: "string \<Rightarrow> nat" where
  "parseInt ds = foldl (\<lambda>n c. 10 * n + digitVal c) 0 ds"

text \<open>\<^verbatim>\<open>parseInt(error.message.match(/\d+/)?.[0] || "60")\<close>.\<close>

definition floodWaitSeconds :: "string \<Rightarrow> nat" where
  "floodWaitSeconds msg =
     parseInt (case matchDigits msg of None \<Rightarrow> ''60'' | Some ds \<Rightarrow> ds)"

subsection \<open>Flood-wait history and delays\<close>

text \<open>\<^verbatim>\<open>updateFloodWaitHistory(hadFloodWait, waitTime = 0)\<close>.\<close>

definition updateFloodWaitHistory :: "bool \<Rightarrow> real \<Rightarrow> downloader \<Rightarrow> downloader" where
  "updateFloodWaitHistory hadFloodWait waitTime d =
     (let now = clock d;
          kept = filter (\<lambda>(timestamp, w). now - timestamp < 10 * 60 * 1000)
                   (floodWaitHistory d)
      in if hadFloodWait then
           let hist = kept @ [(now, waitTime)];
               recentFloodWaits =
                 filter (\<lambda>(timestamp, w). now - timestamp < 5 * 60 * 1000) hist;
               d1 = d\<lparr>floodWaitHistory := hist,
                      consecutiveFloodWaits := consecutiveFloodWaits d + 1\<rparr>
           in if length recentFloodWaits > 3 then
                d1\<lparr>adaptiveDelayMultiplier := min 2.0 (adaptiveDelayMultiplier d * 1.5),
                   optimalRequestRate := max 20 (optimalRequestRate d * 0.8)\<rparr>
              else if length recentFloodWaits = 1 then
                d1\<lparr>adaptiveDelayMultiplier := min 1.5 (adaptiveDelayMultiplier d * 1.2)\<rparr>
              else d1
         else
           d\<lparr>floodWaitHistory := kept, consecutiveFloodWaits := 0,
             adaptiveDelayMultiplier := max 0.3 (adaptiveDelayMultiplier d * 0.95),
             optimalRequestRate := min 100 (optimalRequestRate d * 1.05)\<rparr>)"

text \<open>
  \<^verbatim>\<open>await new Promise((resolve) => setTimeout(resolve, ms))\<close>: the wait asked of the
  timer is logged and the clock advances by it.
\<close>

definition sleep :: "real \<Rightarrow> downloader \<Rightarrow> downloader" where
  "sleep ms d = d\<lparr>clock := clock d + ms, slept := slept d @ [ms]\<rparr>"

text \<open>
  \<^verbatim>\<open>Number.prototype.toFixed(1)\<close> followed by \<^verbatim>\<open>parseFloat\<close>: the nearest
  multiple of one tenth, ties away from zero. The model rounds the exact number; the code
  rounds the double nearest to it, so the two can differ by one tenth where the exact number
  lies on a tie (19.95 is read as 19.9 by the code and as 20.0 here). The bounds proved
  below hold on every branch of the delay and do not depend on it.
\<close>

definition toFixed1 :: "real \<Rightarrow> real" where
  "toFixed1 x =
     (if x < 0 then - (real_of_int \<lfloor>- x * 10 + 1 / 2\<rfloor> / 10)
      else real_of_int \<lfloor>x * 10 + 1 / 2\<rfloor> / 10)"

definition getCurrentSpeedMbps :: "speed_monitor \<Rightarrow> real" where
  "getCurrentSpeedMbps m = toFixed1 (currentSpeed m / 1000000)"

text \<open>
  The delay \<^verbatim>\<open>precisionDelay(ms)\<close> asks of the timer: a third of \<open>ms\<close> without a
  speed monitor, otherwise \<open>ms\<close> divided by the stabilization factor (times 2 or 1.5 at
  low and medium speed) and halved in boost mode, never below 5.
\<close>

definition targetDelay :: "real \<Rightarrow> downloader \<Rightarrow> real" where
  "targetDelay ms d =
     (case speedMonitor d of
        None \<Rightarrow> max 5 (ms / 3)
      | Some m \<Rightarrow>
          let speedFactor = stabilizationFactor m;
              currentSpeedMbps = getCurrentSpeedMbps m;
              t = (if currentSpeedMbps < 20 then max 5 (ms / (speedFactor * 2))
                   else if currentSpeedMbps \<ge> 30 then max 10 (ms / speedFactor)
                   else max 8 (ms / (speedFactor * 1.5)))
          in if speedBoostMode d then max 5 (t / 2) else t)"

definition precisionDelay :: "real \<Rightarrow> downloader \<Rightarrow> downloader" where
  "precisionDelay ms d = sleep (targetDelay ms d) d"

subsection \<open>The retry engine\<close>

text \<open>
  \<^verbatim>\<open>retryOperation(operation, operationName, maxRetries = 5)\<close>. The operation is any
  state transformer that returns or throws. \<open>retryFrom\<close> is the \<^verbatim>\<open>for\<close> loop
  entered with the counter at \<open>attempt\<close>: \<^verbatim>\<open>continue\<close> after a flood wait, like the
  end of the body, goes through the increment \<^verbatim>\<open>attempt++\<close> of the loop header.
  Falling out of the loop returns \<^verbatim>\<open>undefined\<close>, here \<open>Returned None\<close>.
\<close>

function retryFrom ::
  "(downloader \<Rightarrow> 'a outcome \<times> downloader) \<Rightarrow> nat \<Rightarrow> nat \<Rightarrow> downloader
     \<Rightarrow> 'a option outcome \<times> downloader" where
  "retryFrom operation maxRetries attempt d =
     (if attempt \<le> maxRetries then
        (case operation (d\<lparr>events := events d @ [Attempt attempt]\<rparr>) of
           (Returned result, d1) \<Rightarrow>
             (Returned (Some result),
              if attempt > 1 then updateFloodWaitHistory False 0 d1 else d1)
         | (Threw message, d1) \<Rightarrow>
             if str_includes message ''FLOOD_WAIT'' \<and> floodWaitSeconds message \<le> 300 then
               retryFrom operation maxRetries (attempt + 1)
                 (precisionDelay (real (floodWaitSeconds message) * 1000)
                    (updateFloodWaitHistory True (real (floodWaitSeconds message)) d1))
             else
               let d2 = (if str_includes message ''FLOOD_WAIT''
                         then updateFloodWaitHistory True (real (floodWaitSeconds message)) d1
                         else d1)
               in if attempt = maxRetries then (Threw message, d2)
                  else retryFrom operation maxRetries (attempt + 1)
                         (precisionDelay (min 500 (100 * real attempt)) d2))
      else (Returned None, d))"
  by pat_completeness auto
termination
  by (relation "measure (\<lambda>(operation, maxRetries, attempt, d). Suc maxRetries - attempt)") auto

declare retryFrom.simps [simp del]

definition retryOperation ::
  "(downloader \<Rightarrow> 'a outcome \<times> downloader) \<Rightarrow> nat \<Rightarrow> downloader
     \<Rightarrow> 'a option outcome \<times> downloader" where
  "retryOperation operation maxRetries d = retryFrom operation maxRetries 1 d"

text \<open>An operation leaves the log of observation points alone.\<close>

definition keepsEvents :: "(downloader \<Rightarrow> 'a \<times> downloader) \<Rightarrow> bool" where
  "keepsEvents f = (\<forall>d. events (snd (f d)) = events d)"

text \<open>
  Three test doubles for the operation: one that times out on every call, one that is
  rate limited (two seconds) on every call, and one that is rate limited on its first call
  only.
\<close>

definition alwaysTimeout :: "downloader \<Rightarrow> unit outcome \<times> downloader" where
  "alwaysTimeout d = (Threw ''ETIMEDOUT'', d)"



subsection \<open>Messages and downloaded records\<close>

text \<open>
  The fields of a Telegram message that the modelled code reads. A field that is only
  tested for truthiness is a \<^typ>\<open>bool\<close>; an object that may be absent is an
  \<^typ>\<open>'a option\<close>. A document attribute is its \<^verbatim>\<open>className\<close> and its
  \<^verbatim>\<open>fileName\<close>.
\<close>

record document =
  attributes :: "(string \<times> string) list option"
  mimeType :: "string option"
  fileName :: "string option"
  docSize :: "nat option"

record media =
  webpage :: bool
  poll :: bool
  geo :: bool
  contact :: bool
  venue :: bool
  game :: bool
  invoice :: bool
  geoLive :: bool
  unsupported :: bool
  photo :: "nat option list option"
  video :: bool
  audio :: bool
  voice :: bool
  document :: "document option"

record message =
  msgId :: int
  msgText :: string
  msgMedia :: "media option"
  sticker :: bool
  dice :: bool
  groupedId :: bool

text \<open>
  An element of \<^verbatim>\<open>downloadedData\<close>, and an element of
  \<^verbatim>\<open>uploadQueue\<close>, which spreads it and adds the queue's flags.
\<close>

record download_data =
  message :: message
  mediaPath :: "string option"
  hasContent :: bool
  downloadIndex :: nat
  failed :: bool

record queue_entry = download_data +
  queueIndex :: nat
  uploadStarted :: bool
  uploadCompleted :: bool
  readyToUpload :: bool
  waitingForPrevious :: bool

subsection \<open>Decimal numerals of template literals\<close>

definition digitChar :: "nat \<Rightarrow> char" where
  "digitChar n = ''0123456789'' ! n"

fun showNat :: "nat \<Rightarrow> string" where
  "showNat n = (if n < 10 then [digitChar n] else showNat (n div 10) @ [digitChar (n mod 10)])"

declare showNat.simps [simp del]

definition showInt :: "int \<Rightarrow> string" where
  "showInt i = (if i < 0 then CHR ''-'' # showNat (nat (- i)) else showNat (nat i))"

subsection \<open>Paths and the file system\<close>

text \<open>
  The functions of Node's \<^verbatim>\<open>path\<close> module (POSIX flavour) that
  \<^verbatim>\<open>getMediaPath\<close> calls, written from their documented behaviour. The last segment
  of a path is what follows its last separator, trailing separators set aside.
\<close>

definition lastSegment :: "string \<Rightarrow> string" where
  "lastSegment p =
     rev (takeWhile (\<lambda>c. c \<noteq> CHR ''/'') (dropWhile (\<lambda>c. c = CHR ''/'') (rev p)))"

text \<open>
  \<^verbatim>\<open>path.extname\<close>: the last segment from its last dot on; empty when the segment
  has no dot, when nothing stands before that dot, and for the segment \<^verbatim>\<open>..\<close>.
\<close>

definition extname :: "string \<Rightarrow> string" where
  "extname p =
     (let seg = lastSegment p;
          tail = rev (takeWhile (\<lambda>c. c \<noteq> CHR ''.'') (rev seg));
          front = take (length seg - length tail - 1) seg
      in if CHR ''.'' \<notin> set seg \<or> front = [] \<or> seg = ''..'' then []
         else CHR ''.'' # tail)"

text \<open>
  \<^verbatim>\<open>path.basename(p, suffix)\<close>: the last segment, without the suffix when the
  segment ends with it and is longer than it. (When the whole path is the suffix the
  result is empty; when the segment is a proper end of the suffix, Node returns the
  segment with the trailing separators of the path.)
\<close>

definition basename :: "string \<Rightarrow> string \<Rightarrow> string" where
  "basename p sfx =
     (let seg = lastSegment p in
      if sfx \<noteq> [] \<and> length sfx \<le> length p then
        if sfx = p then []
        else if suffix sfx seg then
          (if sfx = seg then seg else take (length seg - length sfx) seg)
        else if suffix seg sfx then
          seg @ takeWhile (\<lambda>c. c = CHR ''/'') (rev p)
        else seg
      else seg)"

text \<open>Splitting at separators, and joining segments with separators.\<close>

fun splitPath :: "string \<Rightarrow> string list" where
  "splitPath [] = [[]]"
| "splitPath (c # cs) =
     (if c = CHR ''/'' then [] # splitPath cs
      else (case splitPath cs of s # ss \<Rightarrow> (c # s) # ss | [] \<Rightarrow> [[c]]))"

fun joinPath :: "string list \<Rightarrow> string" where
  "joinPath [] = []"
| "joinPath [s] = s"
| "joinPath (s # t # ss) = s @ CHR ''/'' # joinPath (t # ss)"

text \<open>
  \<^verbatim>\<open>normalizeString\<close>: empty and \<^verbatim>\<open>.\<close> segments are dropped and
  \<^verbatim>\<open>..\<close> removes the segment before it; above the root of a relative path
  \<^verbatim>\<open>..\<close> is kept. The accumulator holds the segments kept so far, last first.
\<close>

fun normalizeSegments :: "bool \<Rightarrow> string list \<Rightarrow> string list \<Rightarrow> string list" where
  "normalizeSegments allowAboveRoot acc [] = rev acc"
| "normalizeSegments allowAboveRoot acc (s # ss) =
     (if s = [] \<or> s = ''.'' then normalizeSegments allowAboveRoot acc ss
      else if s = ''..'' then
        (case acc of
           t # ts \<Rightarrow>
             if t \<noteq> ''..'' then normalizeSegments allowAboveRoot ts ss
             else if allowAboveRoot then normalizeSegments allowAboveRoot (''..'' # acc) ss
             else normalizeSegments allowAboveRoot acc ss
         | [] \<Rightarrow>
             if allowAboveRoot then normalizeSegments allowAboveRoot [''..''] ss
             else normalizeSegments allowAboveRoot [] ss)
      else normalizeSegments allowAboveRoot (s # acc) ss)"

text \<open>\<^verbatim>\<open>path.normalize\<close> on a non-empty path, and \<^verbatim>\<open>path.join\<close>.\<close>

definition normalizePath :: "string \<Rightarrow> string" where
  "normalizePath p =
     (let isAbsolute = (hd p = CHR ''/'');
          trailingSeparator = (last p = CHR ''/'');
          body = joinPath (normalizeSegments (\<not> isAbsolute) [] (splitPath p))
      in if body = [] then
           (if isAbsolute then ''/'' else if trailingSeparator then ''./'' else ''.'')
         else (if isAbsolute then ''/'' else []) @ body
              @ (if trailingSeparator then ''/'' else []))"

definition pathJoin :: "string list \<Rightarrow> string" where
  "pathJoin args =
     (let joined = joinPath (filter (\<lambda>a. a \<noteq> []) args)
      in if joined = [] then ''.'' else normalizePath joined)"

text \<open>
  \<^verbatim>\<open>path.dirname\<close>: the path up to the separator before its last segment; the
  root or \<^verbatim>\<open>.\<close> when there is none.
\<close>

definition dirname :: "string \<Rightarrow> string" where
  "dirname p =
     (if p = [] then ''.''
      else
        let hasRoot = (hd p = CHR ''/'');
            r = dropWhile (\<lambda>c. c \<noteq> CHR ''/'')
                  (dropWhile (\<lambda>c. c = CHR ''/'') (rev (tl p)));
            endIndex = length r
        in if r = [] then (if hasRoot then ''/'' else ''.'')
           else if hasRoot \<and> endIndex = 1 then ''//''
           else take endIndex p)"

text \<open>The calls of Node's \<^verbatim>\<open>fs\<close> module on the flat file system of the state.\<close>

definition existsSync :: "string \<Rightarrow> downloader \<Rightarrow> bool" where
  "existsSync p d = (files d p \<noteq> None)"

definition statSize :: "string \<Rightarrow> downloader \<Rightarrow> nat outcome" where
  "statSize p d =
     (case files d p of
        Some (File n) \<Rightarrow> Returned n
      | Some (Directory n) \<Rightarrow> Returned n
      | Some Unreadable \<Rightarrow> Threw ''EACCES: permission denied, stat''
      | None \<Rightarrow> Threw ''ENOENT: no such file or directory, stat'')"


definition mkdirSync :: "string \<Rightarrow> downloader \<Rightarrow> unit outcome \<times> downloader" where
  "mkdirSync p d =
     (if mkdirFails d p then (Threw ''EACCES: permission denied, mkdir'', d)
      else (Returned (),
            if files d p = None then d\<lparr>files := (files d)(p \<mapsto> Directory 4096)\<rparr> else d))"


subsection \<open>Media type, media path and the check for a downloaded file\<close>

definition toLowerChar :: "char \<Rightarrow> char" where
  "toLowerChar c =
     (if c \<in> set ''ABCDEFGHIJKLMNOPQRSTUVWXYZ'' then char_of (of_char c + (32::nat)) else c)"

definition isAlnum :: "char \<Rightarrow> bool" where
  "isAlnum c =
     (c \<in> set ''abcdefghijklmnopqrstuvwxyzABCDEFGHIJKLMNOPQRSTUVWXYZ0123456789'')"

text \<open>\<^verbatim>\<open>filterString\<close>: \<^verbatim>\<open>string.replace(/[^a-zA-Z0-9]/g, "")\<close>.\<close>

definition filterString :: "string \<Rightarrow> string" where
  "filterString s = filter isAlnum s"

text \<open>\<^verbatim>\<open>fileName.toLowerCase().split('.').pop()\<close>.\<close>

definition lowerExtension :: "string \<Rightarrow> string" where
  "lowerExtension name = rev (takeWhile (\<lambda>c. c \<noteq> CHR ''.'') (rev (map toLowerChar name)))"

text \<open>
  The part of \<^verbatim>\<open>getMediaType\<close> that classifies a document by its MIME type and,
  failing that, by the extension of its file name.
\<close>

definition documentType :: "document \<Rightarrow> string" where
  "documentType doc =
     (let byMime =
            (case mimeType doc of
               None \<Rightarrow> None
             | Some mt \<Rightarrow>
                 if mt = [] then None
                 else if prefix ''video/'' mt then Some ''video''
                 else if prefix ''audio/'' mt then Some ''audio''
                 else if mt = ''application/pdf'' then Some ''pdf''
                 else if str_includes mt ''zip'' \<or> str_includes mt ''archive'' then Some ''zip''
                 else if prefix ''image/'' mt then Some ''image''
                 else if str_includes mt ''text/'' then Some ''document''
                 else if str_includes mt ''application/'' then Some ''document''
                 else None);
          byName =
            (case fileName doc of
               None \<Rightarrow> None
             | Some name \<Rightarrow>
                 if name = [] then None
                 else
                   let ext = lowerExtension name in
                   if ext \<in> set [''mp4'', ''avi'', ''mkv'', ''mov'', ''wmv'', ''flv'', ''webm'',
                                  ''m4v'', ''3gp'', ''ts'', ''mts''] then Some ''video''
                   else if ext \<in> set [''mp3'', ''wav'', ''flac'', ''aac'', ''ogg'', ''wma'',
                                       ''m4a'', ''opus''] then Some ''audio''
                   else if ext \<in> set [''jpg'', ''jpeg'', ''png'', ''gif'', ''bmp'', ''webp'',
                                       ''svg'', ''tiff''] then Some ''image''
                   else if ext = ''pdf'' then Some ''pdf''
                   else if ext \<in> set [''zip'', ''rar'', ''7z'', ''tar'', ''gz''] then Some ''zip''
                   else None)
      in case byMime of
           Some t \<Rightarrow> t
         | None \<Rightarrow> (case byName of Some t \<Rightarrow> t | None \<Rightarrow> ''document''))"

text \<open>
  \<^verbatim>\<open>getMediaType(message)\<close> for a message that is not null. \<open>None\<close> is the
  \<^verbatim>\<open>undefined\<close> the function returns when no branch matches. Reading
  \<^verbatim>\<open>message.media.photo\<close> of a message without media throws inside the
  \<^verbatim>\<open>try\<close>, and the handler returns \<^verbatim>\<open>"unknown"\<close>.
\<close>

definition getMediaType :: "message \<Rightarrow> string option" where
  "getMediaType msg =
     (let early =
            (case msgMedia msg of
               None \<Rightarrow> None
             | Some m \<Rightarrow>
                 if webpage m then Some ''webpage''
                 else if poll m then Some ''poll''
                 else if geo m then Some ''geo''
                 else if contact m then Some ''contact''
                 else if venue m then Some ''venue''
                 else if game m then Some ''game''
                 else if invoice m then Some ''invoice''
                 else if geoLive m then Some ''live_location''
                 else if unsupported m then Some ''unsupported''
                 else None)
      in case early of
           Some t \<Rightarrow> Some t
         | None \<Rightarrow>
             if sticker msg then Some ''sticker''
             else if dice msg then Some ''dice''
             else if groupedId msg then Some ''album''
             else
               (case msgMedia msg of
                  None \<Rightarrow> Some ''unknown''
                | Some m \<Rightarrow>
                    if photo m \<noteq> None then Some ''image''
                    else if video m then Some ''video''
                    else if audio m then Some ''audio''
                    else if voice m then Some ''audio''
                    else (case document m of
                            Some doc \<Rightarrow> Some (documentType doc)
                          | None \<Rightarrow> None)))"

text \<open>
  The table of the package \<^verbatim>\<open>mime-db\<close> is a parameter: a MIME type has no entry,
  an entry without \<^verbatim>\<open>extensions\<close>, or an entry with a list of extensions.
\<close>

type_synonym mime_db = "string \<Rightarrow> string list option option"

text \<open>
  The file name \<^verbatim>\<open>getMediaPath\<close> starts from (lines 1119 to 1138):
  \<^verbatim>\<open>`${message.id}_file`\<close>, replaced by the name attribute of a document, or
  extended by the first extension that the table has for its MIME type; then extended for
  video, audio and photo. Reading \<^verbatim>\<open>extensions[0]\<close> of an entry without extensions
  throws.
\<close>

definition mediaFileName :: "mime_db \<Rightarrow> message \<Rightarrow> media \<Rightarrow> string outcome" where
  "mediaFileName mimeDB msg m =
     (let fileName0 = showInt (msgId msg) @ ''_file'';
          named =
            (case document m of
               None \<Rightarrow> Returned fileName0
             | Some doc \<Rightarrow>
                 (case attributes doc of
                    None \<Rightarrow> Returned fileName0
                  | Some docAttributes \<Rightarrow>
                      (case find (\<lambda>e. fst e = ''DocumentAttributeFilename'') docAttributes of
                         Some fileNameObj \<Rightarrow> Returned (snd fileNameObj)
                       | None \<Rightarrow>
                           (case mimeType doc of
                              None \<Rightarrow> Returned fileName0
                            | Some mt \<Rightarrow>
                                (case mimeDB mt of
                                   None \<Rightarrow> Returned fileName0
                                 | Some None \<Rightarrow>
                                     Threw ''Cannot read properties of undefined (reading 0)''
                                 | Some (Some []) \<Rightarrow> Returned fileName0
                                 | Some (Some (ext # exts)) \<Rightarrow>
                                     if ext = [] then Returned fileName0
                                     else Returned (fileName0 @ ''.'' @ ext))))))
      in case named of
           Threw error \<Rightarrow> Threw error
         | Returned name \<Rightarrow>
             Returned (name @ (if video m then ''.mp4'' else [])
                            @ (if audio m then ''.mp3'' else [])
                            @ (if photo m \<noteq> None then ''.jpg'' else [])))"

text \<open>\<^verbatim>\<open>`${baseName}_${message.id}${ext}`\<close> (lines 1142 to 1145).\<close>

definition uniqueFileName :: "string \<Rightarrow> int \<Rightarrow> string" where
  "uniqueFileName name i =
     (let ext = extname name; baseName = basename name ext
      in baseName @ ''_'' @ showInt i @ ext)"

text \<open>
  \<^verbatim>\<open>getMediaPath(message, outputFolder)\<close>; \<open>None\<close> is a message that is
  \<^verbatim>\<open>null\<close>. \<^verbatim>\<open>filterString\<close> throws on the \<^verbatim>\<open>undefined\<close> of
  \<^verbatim>\<open>getMediaType\<close>, and creating the directory may throw.
\<close>

definition getMediaPath ::
  "mime_db \<Rightarrow> message option \<Rightarrow> string \<Rightarrow> downloader \<Rightarrow> string outcome \<times> downloader" where
  "getMediaPath mimeDB maybeMessage outputFolder d =
     (case maybeMessage of
        None \<Rightarrow> (Returned ''unknown'', d)
      | Some msg \<Rightarrow>
          (case msgMedia msg of
             None \<Rightarrow> (Returned ''unknown'', d)
           | Some m \<Rightarrow>
               (case mediaFileName mimeDB msg m of
                  Threw error \<Rightarrow> (Threw error, d)
                | Returned name \<Rightarrow>
                    (case getMediaType msg of
                       None \<Rightarrow>
                         (Threw ''Cannot read properties of undefined (reading replace)'', d)
                     | Some mediaType \<Rightarrow>
                         let folderType = filterString mediaType;
                             finalPath = pathJoin [outputFolder, folderType,
                                                   uniqueFileName name (msgId msg)]
                         in if \<not> existsSync (dirname finalPath) d then
                              (case mkdirSync (dirname finalPath) d of
                                 (Threw error, d1) \<Rightarrow> (Threw error, d1)
                               | (Returned u, d1) \<Rightarrow> (Returned finalPath, d1))
                            else (Returned finalPath, d)))))"

text \<open>\<^verbatim>\<open>checkFileExist(message, outputFolder)\<close>.\<close>

definition checkFileExist ::
  "mime_db \<Rightarrow> message option \<Rightarrow> string \<Rightarrow> downloader \<Rightarrow> bool outcome \<times> downloader" where
  "checkFileExist mimeDB maybeMessage outputFolder d =
     (case maybeMessage of
        None \<Rightarrow> (Returned False, d)
      | Some msg \<Rightarrow>
          if msgMedia msg = None then (Returned False, d)
          else
            (case getMediaPath mimeDB maybeMessage outputFolder d of
               (Threw error, d1) \<Rightarrow> (Threw error, d1)
             | (Returned expectedPath, d1) \<Rightarrow>
                 if existsSync expectedPath d1 then
                   (case statSize expectedPath d1 of
                      Returned fileSize \<Rightarrow> (Returned (fileSize > 0), d1)
                    | Threw error \<Rightarrow> (Returned False, d1))
                 else (Returned False, d1)))"

subsection \<open>The sequential upload queue\<close>

text \<open>
  \<^verbatim>\<open>uploadMessage\<close> and \<^verbatim>\<open>reconnectClient\<close> talk to Telegram. In the queue
  they are parameters \<open>um\<close> and \<open>rc\<close>: any state transformers that return or throw.
\<close>

type_synonym uploader =
  "message \<Rightarrow> string option \<Rightarrow> bool \<Rightarrow> downloader \<Rightarrow> bool outcome \<times> downloader"

type_synonym reconnector = "downloader \<Rightarrow> unit outcome \<times> downloader"

text \<open>A path that JavaScript takes as true: present and not the empty string.\<close>

definition truthyPath :: "string option \<Rightarrow> bool" where
  "truthyPath p = (case p of None \<Rightarrow> False | Some s \<Rightarrow> s \<noteq> [])"

text \<open>
  The wait for the previous record (lines 1049 to 1077). The loop polls the flag of the
  previous entry once per \<^verbatim>\<open>precisionDelay(1000)\<close>, at most 300 times; nothing else
  runs meanwhile that could set the flag, so an unset flag stays unset and the wait ends in
  the timeout error.
\<close>

definition waitForPrevious ::
  "queue_entry list \<Rightarrow> nat \<Rightarrow> downloader \<Rightarrow> unit outcome \<times> downloader" where
  "waitForPrevious uploadQueue currentIndex d =
     (if currentIndex > 0 then
        let previousData = uploadQueue ! (currentIndex - 1)
        in if \<not> uploadCompleted previousData then
             (Threw (''Timeout waiting for previous message ''
                       @ showInt (msgId (message previousData))),
              ((precisionDelay 1000) ^^ 300) d)
           else (Returned (), d)
      else (Returned (), d))"

text \<open>
  The closure handed to \<^verbatim>\<open>retryOperation\<close> (lines 1094 to 1122): one call of
  \<^verbatim>\<open>uploadMessage\<close>, with the media path or \<^verbatim>\<open>null\<close>; on a connection error
  the client is reconnected before the error is thrown again (an error of the reconnection
  replaces it).
\<close>

definition uploadOperation ::
  "uploader \<Rightarrow> reconnector \<Rightarrow> bool \<Rightarrow> queue_entry \<Rightarrow> downloader
     \<Rightarrow> unit outcome \<times> downloader" where
  "uploadOperation um rc isSingleFile currentData d =
     (case um (message currentData)
             (if truthyPath (mediaPath currentData) then mediaPath currentData else None)
             isSingleFile
             (d\<lparr>events := events d @ [UploadCall (msgId (message currentData))]\<rparr>) of
        (Returned r, d1) \<Rightarrow> (Returned (), d1)
      | (Threw error, d1) \<Rightarrow>
          if str_includes error ''Not connected'' \<or> str_includes error ''Connection closed''
          then (case rc d1 of
                  (Returned u, d2) \<Rightarrow> (Threw error, d2)
                | (Threw reconnectError, d2) \<Rightarrow> (Threw reconnectError, d2))
          else (Threw error, d1))"

text \<open>
  The result of one turn of the queue: the current entry as the turn leaves it, the
  \<^verbatim>\<open>success\<close> flag pushed to \<^verbatim>\<open>uploadResults\<close>, whether the turn ran to the
  end of the loop body (and so signals the next entry and waits before it) or left it by
  \<^verbatim>\<open>continue\<close>, and the state.
\<close>

type_synonym turn = "queue_entry \<times> bool \<times> bool \<times> downloader"

definition markCompleted :: "queue_entry \<Rightarrow> bool \<Rightarrow> bool \<Rightarrow> downloader \<Rightarrow> turn" where
  "markCompleted currentData success toEnd d =
     (currentData\<lparr>uploadCompleted := True\<rparr>, success, toEnd,
      d\<lparr>events := events d @ [UploadCompleted (msgId (message currentData))]\<rparr>)"

text \<open>The \<^verbatim>\<open>catch\<close> block of the loop body (lines 1142 to 1184).\<close>

definition uploadCatch :: "uploader \<Rightarrow> bool \<Rightarrow> queue_entry \<Rightarrow> string \<Rightarrow> downloader \<Rightarrow> turn" where
  "uploadCatch um isSingleFile currentData error d =
     (if str_includes error ''FLOOD_WAIT'' then
        let d1 = precisionDelay (real (floodWaitSeconds error) * 1000) d
        in case um (message currentData) (mediaPath currentData) isSingleFile
                  (d1\<lparr>events := events d1 @ [UploadCall (msgId (message currentData))]\<rparr>) of
             (Returned retrySuccess, d2) \<Rightarrow>
               if retrySuccess then markCompleted currentData True False d2
               else markCompleted currentData False True d2
           | (Threw retryError, d2) \<Rightarrow> markCompleted currentData False True d2
      else markCompleted currentData False True d)"

text \<open>The \<^verbatim>\<open>try\<close> block of the loop body (lines 1047 to 1141) with its handler.\<close>

definition uploadTurn ::
  "uploader \<Rightarrow> reconnector \<Rightarrow> bool \<Rightarrow> queue_entry list \<Rightarrow> nat \<Rightarrow> downloader \<Rightarrow> turn" where
  "uploadTurn um rc isSingleFile uploadQueue currentIndex d =
     (let currentData = uploadQueue ! currentIndex;
          messageId = msgId (message currentData)
      in case waitForPrevious uploadQueue currentIndex d of
           (Threw error, d0) \<Rightarrow> uploadCatch um isSingleFile currentData error d0
         | (Returned u, d0) \<Rightarrow>
             let verified =
                   (if truthyPath (mediaPath currentData)
                       \<and> \<not> existsSync (the (mediaPath currentData)) d0
                    then currentData\<lparr>mediaPath := None\<rparr> else currentData);
                 started = verified\<lparr>uploadStarted := True\<rparr>;
                 d1 = d0\<lparr>events := events d0 @ [UploadStarted messageId]\<rparr>
             in case retryOperation (uploadOperation um rc isSingleFile started) 5 d1 of
                  (Threw error, d2) \<Rightarrow> uploadCatch um isSingleFile started error d2
                | (Returned r, d2) \<Rightarrow> markCompleted started True True d2)"

text \<open>
  The \<^verbatim>\<open>for\<close> loop over \<^verbatim>\<open>currentIndex\<close>, with \<^verbatim>\<open>uploadResults\<close> (the
  success flag and the queue index of each push) and \<^verbatim>\<open>completedUploads\<close>.
\<close>

definition signalNext :: "nat \<Rightarrow> queue_entry list \<Rightarrow> queue_entry list" where
  "signalNext currentIndex uploadQueue =
     (if currentIndex + 1 < length uploadQueue then
        uploadQueue[currentIndex + 1 :=
          (uploadQueue ! (currentIndex + 1))\<lparr>readyToUpload := True,
                                              waitingForPrevious := False\<rparr>]
      else uploadQueue)"

function uploadLoop ::
  "uploader \<Rightarrow> reconnector \<Rightarrow> bool \<Rightarrow> nat \<Rightarrow> queue_entry list \<Rightarrow> (bool \<times> nat) list \<Rightarrow> nat
     \<Rightarrow> downloader \<Rightarrow> queue_entry list \<times> (bool \<times> nat) list \<times> nat \<times> downloader" where
  "uploadLoop um rc isSingleFile currentIndex uploadQueue uploadResults completedUploads d =
     (if currentIndex < length uploadQueue then
        (case uploadTurn um rc isSingleFile uploadQueue currentIndex d of
           (currentData, success, toEnd, d1) \<Rightarrow>
             uploadLoop um rc isSingleFile (currentIndex + 1)
               (if toEnd then signalNext currentIndex (uploadQueue[currentIndex := currentData])
                else uploadQueue[currentIndex := currentData])
               (uploadResults @ [(success, currentIndex)])
               (if success then completedUploads + 1 else completedUploads)
               (if toEnd \<and> currentIndex + 1 < length uploadQueue
                then precisionDelay (if isSingleFile then 100 else 500) d1 else d1))
      else (uploadQueue, uploadResults, completedUploads, d))"
  by pat_completeness auto
termination
  by (relation "measure (\<lambda>(um, rc, isSingleFile, currentIndex, uploadQueue, rest).
                  length uploadQueue - currentIndex)")
     (auto simp add: signalNext_def)

declare uploadLoop.simps [simp del]

text \<open>
  \<^verbatim>\<open>Array.prototype.sort\<close> with the comparator \<^verbatim>\<open>a.message.id - b.message.id\<close>
  is a stable sort by id.
\<close>

definition sortById :: "download_data list \<Rightarrow> download_data list" where
  "sortById downloadedData = sort_key (\<lambda>data. msgId (message data)) downloadedData"

definition enqueue :: "download_data \<Rightarrow> nat \<Rightarrow> queue_entry" where
  "enqueue data index =
     download_data.extend data
       (queue_entry.fields index False False (index = 0) (index > 0))"

text \<open>
  \<^verbatim>\<open>uploadBatch(client, downloadedData)\<close>. It returns \<^verbatim>\<open>downloadedData\<close>, sorted in
  place unless the guard returned early; the model returns with it the final queue, the
  results, the count of completed uploads and the state.
\<close>

definition uploadBatch ::
  "uploader \<Rightarrow> reconnector \<Rightarrow> download_data list \<Rightarrow> downloader
     \<Rightarrow> download_data list \<times> queue_entry list \<times> (bool \<times> nat) list \<times> nat \<times> downloader" where
  "uploadBatch um rc downloadedData d =
     (if \<not> uploadMode d \<or> downloadedData = [] then (downloadedData, [], [], 0, d)
      else
        let isSingleFile = (length downloadedData = 1);
            sortedData = sortById downloadedData;
            uploadQueue = map (\<lambda>(data, index). enqueue data index)
                              (zip sortedData [0..<length sortedData])
        in (sortedData, uploadLoop um rc isSingleFile 0 uploadQueue [] 0 d))"

text \<open>Readings of the observation log.\<close>

fun startedIds :: "event list \<Rightarrow> int list" where
  "startedIds [] = []"
| "startedIds (UploadStarted i # es) = i # startedIds es"
| "startedIds (e # es) = startedIds es"

fun isQueueMark :: "event \<Rightarrow> bool" where
  "isQueueMark (UploadStarted i) = True"
| "isQueueMark (UploadCompleted i) = True"
| "isQueueMark e = False"

fun callIds :: "event list \<Rightarrow> int list" where
  "callIds [] = []"
| "callIds (UploadCall i # es) = i # callIds es"
| "callIds (e # es) = callIds es"

text \<open>
  The shape of the log of a queue run over the records with the ids \<open>ids\<close>, in this
  order: for each record its start mark, then attempts and calls of
  \<^verbatim>\<open>uploadMessage\<close> for that record only, then its completion mark.
\<close>

fun queueLog :: "int list \<Rightarrow> event list \<Rightarrow> bool"
  and inRecord :: "int \<Rightarrow> int list \<Rightarrow> event list \<Rightarrow> bool" where
  "queueLog [] es = (es = [])"
| "queueLog (i # ids) [] = False"
| "queueLog (i # ids) (e # es) = (e = UploadStarted i \<and> inRecord i ids es)"
| "inRecord i ids [] = False"
| "inRecord i ids (Attempt n # es) = inRecord i ids es"
| "inRecord i ids (UploadCall j # es) = (j = i \<and> inRecord i ids es)"
| "inRecord i ids (UploadCompleted j # es) = (j = i \<and> queueLog ids es)"
| "inRecord i ids (UploadStarted j # es) = False"

text \<open>
  A stretch of the log that holds only attempts and calls of \<^verbatim>\<open>uploadMessage\<close>
  for the record \<open>i\<close>; an uploader that leaves the log alone; an uploader that throws
  on every call, it and the reconnector throwing only errors other than
  \<^verbatim>\<open>FLOOD_WAIT\<close>.
\<close>

definition callsOnly :: "int \<Rightarrow> event list \<Rightarrow> bool" where
  "callsOnly i seg = (set seg \<subseteq> insert (UploadCall i) (range Attempt))"

definition quietUploader :: "uploader \<Rightarrow> bool" where
  "quietUploader um = (\<forall>m p b. keepsEvents (um m p b))"

definition onlyThrows :: "uploader \<Rightarrow> reconnector \<Rightarrow> bool" where
  "onlyThrows um rc =
     ((\<forall>m p b d. \<exists>e d'. um m p b d = (Threw e, d') \<and> \<not> str_includes e ''FLOOD_WAIT'')
      \<and> (\<forall>d e d'. rc d = (Threw e, d') \<longrightarrow> \<not> str_includes e ''FLOOD_WAIT''))"


text \<open>
  Test doubles: an uploader that fails on every call, a reconnector that succeeds, and a
  batch of three text records handed over in the order of ids 7, 3, 5.
\<close>

definition failingUploader :: uploader where
  "failingUploader m p b d = (Threw ''UPLOAD_FAILED'', d)"

definition noReconnect :: reconnector where
  "noReconnect d = (Returned (), d)"

definition textRecord :: "int \<Rightarrow> download_data" where
  "textRecord i =
     \<lparr>message = \<lparr>msgId = i, msgText = ''text'', msgMedia = None, sticker = False,
                  dice = False, groupedId = False\<rparr>,
      mediaPath = None, hasContent = True, downloadIndex = 0, failed = False\<rparr>"

definition sampleBatch :: "download_data list" where
  "sampleBatch = [textRecord 7, textRecord 3, textRecord 5]"

definition finalState :: "'a \<times> 'b \<times> 'c \<times> 'd \<times> downloader \<Rightarrow> downloader" where
  "finalState r = snd (snd (snd (snd r)))"

definition finalQueue :: "'a \<times> 'b \<times> 'c \<Rightarrow> 'b" where
  "finalQueue r = fst (snd r)"

definition finalResults :: "'a \<times> 'b \<times> 'c \<times> 'd \<Rightarrow> 'c" where
  "finalResults r = fst (snd (snd r))"

subsection \<open>Batch processing and its recovery\<close>

text \<open>
  \<^verbatim>\<open>refreshMessagesBatch(client, channelId, messageIds)\<close>: the details request of
  the Telegram client is the parameter \<open>getMessageDetail\<close>; an error of the request is
  logged and \<^verbatim>\<open>null\<close> returned.
\<close>

type_synonym detail_fetcher =
  "int list \<Rightarrow> downloader \<Rightarrow> message list outcome \<times> downloader"

definition refreshMessagesBatch ::
  "detail_fetcher \<Rightarrow> int list \<Rightarrow> downloader \<Rightarrow> message list option \<times> downloader" where
  "refreshMessagesBatch getMessageDetail messageIds d =
     (case getMessageDetail messageIds d of
        (Returned refreshedMessages, d1) \<Rightarrow> (Some refreshedMessages, d1)
      | (Threw error, d1) \<Rightarrow> (None, d1))"

text \<open>
  \<^verbatim>\<open>processBatch(client, messages, batchIndex, totalBatches, channelId)\<close>. The
  \<^verbatim>\<open>try\<close> block (lines 1440 to 1524) increments \<^verbatim>\<open>batchCounter\<close> and then
  refreshes, downloads, uploads and cleans up: everything after the increment is the
  parameter \<open>runBatch\<close>, any state transformer that returns or throws. The
  \<^verbatim>\<open>catch\<close> block (lines 1525 to 1549) is modelled in full, with
  \<^verbatim>\<open>ensureConnectionHealth\<close> as the parameter \<open>ensureHealth\<close>. The method calls
  itself in the handler, and nothing bounds the depth: the model takes fuel, one unit per
  call, and \<open>None\<close> is a run that needs more.
\<close>

type_synonym batch_body = "message list \<Rightarrow> downloader \<Rightarrow> unit outcome \<times> downloader"

fun processBatch ::
  "nat \<Rightarrow> batch_body \<Rightarrow> detail_fetcher \<Rightarrow> reconnector \<Rightarrow> message list \<Rightarrow> downloader
     \<Rightarrow> (unit outcome \<times> downloader) option" where
  "processBatch 0 runBatch getMessageDetail ensureHealth messages d = None"
| "processBatch (Suc fuel) runBatch getMessageDetail ensureHealth messages d =
     (case runBatch messages (d\<lparr>batchCounter := batchCounter d + 1\<rparr>) of
        (Returned u, d1) \<Rightarrow> Some (Returned (), d1)
      | (Threw error, d1) \<Rightarrow>
          (case refreshMessagesBatch getMessageDetail (map msgId messages) d1 of
             (None, d2) \<Rightarrow> Some (Returned (), d2)
           | (Some retryMessages, d2) \<Rightarrow>
               if length retryMessages > 0 then
                 (case ensureHealth d2 of
                    (Threw retryError, d3) \<Rightarrow> Some (Returned (), d3)
                  | (Returned u, d3) \<Rightarrow>
                      (case processBatch fuel runBatch getMessageDetail ensureHealth
                              retryMessages d3 of
                         None \<Rightarrow> None
                       | Some (Threw retryError, d4) \<Rightarrow> Some (Returned (), d4)
                       | Some (Returned u, d4) \<Rightarrow> Some (Returned (), d4)))
               else Some (Returned (), d2)))"

declare processBatch.simps [simp del]

text \<open>
  Test doubles: a batch body that fails in the first two runs of a session and one that
  fails in every run; a details request that answers with a text message per id, and one
  that fails; a connection check that passes.
\<close>

definition failsTwice :: batch_body where
  "failsTwice messages d =
     (if batchCounter d \<le> 2 then (Threw ''Connection closed'', d) else (Returned (), d))"

definition alwaysFails :: batch_body where
  "alwaysFails messages d = (Threw ''Connection closed'', d)"

definition textMessage :: "int \<Rightarrow> message" where
  "textMessage i = \<lparr>msgId = i, msgText = ''text'', msgMedia = None, sticker = False,
                    dice = False, groupedId = False\<rparr>"

definition freshDetails :: detail_fetcher where
  "freshDetails messageIds d = (Returned (map textMessage messageIds), d)"

definition noDetails :: detail_fetcher where
  "noDetails messageIds d = (Threw ''Failed to get message details: timeout'', d)"

definition healthy :: reconnector where
  "healthy d = (Returned (), d)"

text \<open>
  Two more: a batch body that fails in the first run of a session only, and a connection
  check that throws.
\<close>

definition failsOnce :: batch_body where
  "failsOnce messages d =
     (if batchCounter d \<le> 1 then (Threw ''Connection closed'', d) else (Returned (), d))"

definition unhealthy :: reconnector where
  "unhealthy d = (Threw ''Connection health check failed'', d)"

text \<open>The part of a string after the last occurrence of a character.\<close>

definition afterLast :: "char \<Rightarrow> string \<Rightarrow> string" where
  "afterLast c u = rev (takeWhile (\<lambda>x. x \<noteq> c) (rev u))"

text \<open>
  Test doubles: an empty MIME table, and the message with the id \<open>i\<close> that carries a
  PDF document named \<^verbatim>\<open>report.pdf\<close> with a size hint of 2000 bytes.
\<close>

definition noMimeDB :: mime_db where
  "noMimeDB t = None"

definition pdfMedia :: media where
  "pdfMedia =
     \<lparr>webpage = False, poll = False, geo = False, contact = False, venue = False,
      game = False, invoice = False, geoLive = False, unsupported = False, photo = None,
      video = False, audio = False, voice = False,
      document = Some \<lparr>attributes = Some [(''DocumentAttributeFilename'', ''report.pdf'')],
                        mimeType = Some ''application/pdf'', fileName = None,
                        docSize = Some 2000\<rparr>\<rparr>"

definition pdfMessage :: "int \<Rightarrow> message" where
  "pdfMessage i = \<lparr>msgId = i, msgText = [], msgMedia = Some pdfMedia, sticker = False,
                   dice = False, groupedId = False\<rparr>"

text \<open>
  A disk that holds the folder \<^verbatim>\<open>/export/1/pdf\<close> and in it the artifact of message
  5 with \<open>n\<close> bytes.
\<close>

definition diskWith :: "nat \<Rightarrow> downloader" where
  "diskWith n =
     freshDownloader\<lparr>files := [''/export/1/pdf'' \<mapsto> Directory 4096,
                                ''/export/1/pdf/report_5.pdf'' \<mapsto> File n]\<rparr>"

subsection \<open>The persisted checkpoint\<close>

text \<open>
  \<^verbatim>\<open>getLastSelection()\<close>: the parsed file, or the empty object when reading or
  parsing fails.
\<close>

definition getLastSelection :: "downloader \<Rightarrow> last_selection" where
  "getLastSelection d =
     (case lastSelectionFile d of
        Some selection \<Rightarrow> selection
      | None \<Rightarrow> \<lparr>messageOffsetId = None, channelId = None\<rparr>)"

text \<open>
  \<^verbatim>\<open>updateLastSelection(object)\<close>: the stored object with the fields of
  \<open>object\<close> over it. A field of \<open>object\<close> is \<open>Some v\<close> when the object has
  it. When the write fails after its retries, the error is logged and the file keeps its
  content.
\<close>

definition updateLastSelection ::
  "int option option \<Rightarrow> int option option \<Rightarrow> downloader \<Rightarrow> downloader" where
  "updateLastSelection newOffset newChannel d =
     (let stored = getLastSelection d;
          merged = \<lparr>messageOffsetId =
                      (case newOffset of Some v \<Rightarrow> v | None \<Rightarrow> messageOffsetId stored),
                    channelId =
                      (case newChannel of Some v \<Rightarrow> v | None \<Rightarrow> channelId stored)\<rparr>
      in if writeFails d then d
         else d\<lparr>lastSelectionFile := Some merged,
                selectionWrites := selectionWrites d @ [merged]\<rparr>)"

text \<open>
  The end of \<^verbatim>\<open>configureDownload\<close> (lines 1980 to 1988), after the prompts have
  fixed the channel: the offset to resume from is the stored one, or 0 when none is
  stored or when the stored channel is another one (\<^verbatim>\<open>Number(undefined)\<close> is
  \<^verbatim>\<open>NaN\<close>, unequal to everything); it is written back with the channel. The
  chosen channel is the number that \<^verbatim>\<open>Number(channelId)\<close> gives.
\<close>

definition resumeOffset :: "int \<Rightarrow> downloader \<Rightarrow> int \<times> downloader" where
  "resumeOffset chosenChannel d =
     (let lastSelection = getLastSelection d;
          stored = (case messageOffsetId lastSelection of Some v \<Rightarrow> v | None \<Rightarrow> 0);
          offset = (if channelId lastSelection \<noteq> Some chosenChannel then 0 else stored)
      in (offset, updateLastSelection (Some (Some offset)) (Some (Some chosenChannel)) d))"

text \<open>
  \<^verbatim>\<open>Math.max(...ids)\<close>: \<^verbatim>\<open>-Infinity\<close>, here \<open>None\<close>, for no ids.
\<close>

definition maxId :: "int list \<Rightarrow> int option" where
  "maxId ids = (case ids of [] \<Rightarrow> None | i # rest \<Rightarrow> Some (fold max rest i))"

definition MESSAGE_LIMIT_CONFIG :: nat where
  "MESSAGE_LIMIT_CONFIG = 3000"

text \<open>
  \<^verbatim>\<open>parseInt(err.message.match(/\d+/)?.[0] || "300")\<close> of the handler of
  \<^verbatim>\<open>downloadChannel\<close>.
\<close>

definition floodWaitSecondsOr300 :: "string \<Rightarrow> nat" where
  "floodWaitSecondsOr300 msg =
     parseInt (case matchDigits msg of None \<Rightarrow> ''300'' | Some ds \<Rightarrow> ds)"

text \<open>
  \<^verbatim>\<open>downloadChannel(client, channelId, offsetMsgId)\<close>, one page of at most 3000
  messages per call. A message is its id. The request \<^verbatim>\<open>getMessages\<close> for the
  messages after an offset is the parameter \<open>getMessages\<close>; what the method does
  with a page between fetching it and writing the checkpoint (details, batches,
  \<^verbatim>\<open>recordMessages\<close>) is the parameter \<open>processPage\<close>; both return or throw.
  An offset is \<open>None\<close> when it is \<^verbatim>\<open>-Infinity\<close>. The method calls itself for
  the next page and, in its handler, after a flood wait: the model takes fuel, one unit per
  call, and \<open>None\<close> is a run that needs more.
\<close>

type_synonym page_fetcher =
  "int option \<Rightarrow> downloader \<Rightarrow> int list outcome \<times> downloader"

type_synonym page_processor = "int list \<Rightarrow> downloader \<Rightarrow> unit outcome \<times> downloader"

text \<open>The \<^verbatim>\<open>catch\<close> block (lines 1790 to 1806); \<open>again\<close> is the call of the method on the same offset.\<close>

definition downloadCatch ::
  "(downloader \<Rightarrow> (unit outcome \<times> downloader) option) \<Rightarrow> string \<Rightarrow> downloader
     \<Rightarrow> (unit outcome \<times> downloader) option" where
  "downloadCatch again err d =
     (if str_includes err ''FLOOD_WAIT'' then
        let waitTime = real (floodWaitSecondsOr300 err) * 1000
        in again (precisionDelay waitTime (updateFloodWaitHistory True (waitTime / 1000) d))
      else Some (Threw err, d))"

fun downloadChannel ::
  "nat \<Rightarrow> page_fetcher \<Rightarrow> page_processor \<Rightarrow> int option \<Rightarrow> downloader
     \<Rightarrow> (unit outcome \<times> downloader) option" where
  "downloadChannel 0 getMessages processPage offsetMsgId d = None"
| "downloadChannel (Suc fuel) getMessages processPage offsetMsgId d =
     (let d0 = initializeSpeedMonitor d;
          offset = (if selectiveMode d0 \<and> offsetMsgId = Some 0
                    then Some (startFromMessageId d0) else offsetMsgId)
      in case retryOperation (getMessages offset) 5 d0 of
           (Threw err, d1) \<Rightarrow>
             downloadCatch (\<lambda>d'. downloadChannel fuel getMessages processPage offset d') err d1
         | (Returned None, d1) \<Rightarrow>
             downloadCatch (\<lambda>d'. downloadChannel fuel getMessages processPage offset d')
               ''Cannot read properties of undefined (reading length)'' d1
         | (Returned (Some messages), d1) \<Rightarrow>
             if messages = [] then Some (Returned (), d1)
             else
               let filteredMessages =
                     (if selectiveMode d1
                      then filter (\<lambda>i. i \<ge> startFromMessageId d1) messages else messages)
               in case processPage (sort filteredMessages) d1 of
                    (Threw err, d2) \<Rightarrow>
                      downloadCatch
                        (\<lambda>d'. downloadChannel fuel getMessages processPage offset d') err d2
                  | (Returned u, d2) \<Rightarrow>
                      let top = maxId filteredMessages;
                          d3 = updateLastSelection (Some top) None d2
                      in if length messages = MESSAGE_LIMIT_CONFIG then
                           (case downloadChannel fuel getMessages processPage top
                                   (precisionDelay RATE_LIMIT_DELAY_CONFIG d3) of
                              None \<Rightarrow> None
                            | Some (Returned u, d4) \<Rightarrow> Some (Returned (), d4)
                            | Some (Threw err, d4) \<Rightarrow>
                                downloadCatch
                                  (\<lambda>d'. downloadChannel fuel getMessages processPage offset d')
                                  err d4)
                         else Some (Returned (), d3))"

declare downloadChannel.simps [simp del]

text \<open>
  What the checkpoint logic reads of the state; a parameter that leaves it alone; the
  stored offset; a source that answers a request after the offset \<open>o\<close> only with
  ids above \<open>o\<close>; and a stored offset that is not above \<open>o\<close>.
\<close>

definition selectionView ::
  "downloader \<Rightarrow> last_selection option \<times> last_selection list \<times> bool \<times> int" where
  "selectionView d =
     (lastSelectionFile d, selectionWrites d, selectiveMode d, startFromMessageId d)"

definition keepsSelection :: "(downloader \<Rightarrow> 'a \<times> downloader) \<Rightarrow> bool" where
  "keepsSelection f = (\<forall>d. selectionView (snd (f d)) = selectionView d)"

definition storedOffset :: "downloader \<Rightarrow> int option" where
  "storedOffset d = messageOffsetId (getLastSelection d)"

definition sourceAscending :: "page_fetcher \<Rightarrow> bool" where
  "sourceAscending getMessages =
     (\<forall>offset d ids d'. getMessages (Some offset) d = (Returned ids, d')
         \<longrightarrow> list_all (\<lambda>i. offset < i) ids)"

definition notAbove :: "int option \<Rightarrow> int \<Rightarrow> bool" where
  "notAbove stored offset = (case stored of None \<Rightarrow> True | Some v \<Rightarrow> v \<le> offset)"

text \<open>
  The writes that lead from the state \<open>d\<close> to the state \<open>d'\<close> carry offsets that
  are numbers above \<open>low\<close> and never decrease, they keep the stored channel, and the
  file holds the last of them.
\<close>

definition checkpointRises :: "int \<Rightarrow> downloader \<Rightarrow> downloader \<Rightarrow> bool" where
  "checkpointRises low d d' =
     (\<exists>ws vs. selectionWrites d' = selectionWrites d @ ws
        \<and> map messageOffsetId ws = map Some vs
        \<and> sorted vs \<and> list_all (\<lambda>v. low < v) vs
        \<and> list_all (\<lambda>w. channelId w = channelId (getLastSelection d)) ws
        \<and> lastSelectionFile d' = (if ws = [] then lastSelectionFile d else Some (last ws)))"

text \<open>
  One turn of the loop of \<^verbatim>\<open>continuousMode\<close> (lines 2052 to 2078):
  \<^verbatim>\<open>configureDownload\<close>, then \<^verbatim>\<open>downloadChannel\<close> from the offset it returned.
  A restart of the program enters this turn with the file as the last run left it.
\<close>

definition downloadTurn ::
  "nat \<Rightarrow> page_fetcher \<Rightarrow> page_processor \<Rightarrow> int \<Rightarrow> downloader
     \<Rightarrow> (unit outcome \<times> downloader) option" where
  "downloadTurn fuel getMessages processPage chosenChannel d =
     (case resumeOffset chosenChannel d of
        (offsetId, d1) \<Rightarrow> downloadChannel fuel getMessages processPage (Some offsetId) d1)"

text \<open>
  The offset that a start resumes from, \<^verbatim>\<open>lastSelection.messageOffsetId || 0\<close>; and
  the statement that from \<open>d\<close> to \<open>d'\<close> every write carries the channel
  \<open>channel\<close> and a number as offset, and that these offsets, after the one to resume
  from, never decrease.
\<close>

definition resumePoint :: "downloader \<Rightarrow> int" where
  "resumePoint d = (case storedOffset d of Some v \<Rightarrow> v | None \<Rightarrow> 0)"

definition checkpointKept :: "int \<Rightarrow> downloader \<Rightarrow> downloader \<Rightarrow> bool" where
  "checkpointKept channel d d' =
     (\<exists>ws vs. selectionWrites d' = selectionWrites d @ ws
        \<and> map messageOffsetId ws = map Some vs
        \<and> sorted (resumePoint d # vs)
        \<and> list_all (\<lambda>w. channelId w = Some channel) ws
        \<and> lastSelectionFile d' = (if ws = [] then lastSelectionFile d else Some (last ws)))"

text \<open>
  A channel that holds the messages \<open>ids\<close> and answers a request with those after
  the offset; a page step that succeeds; and a state whose file holds the offset 500 of
  the channel 1.
\<close>

definition messagesAfter :: "int list \<Rightarrow> page_fetcher" where
  "messagesAfter ids offset d =
     (Returned (case offset of None \<Rightarrow> ids | Some v \<Rightarrow> filter (\<lambda>i. v < i) ids), d)"

definition pageDone :: page_processor where
  "pageDone ids d = (Returned (), d)"

definition storedAt500 :: downloader where
  "storedAt500 =
     freshDownloader\<lparr>lastSelectionFile := Some \<lparr>messageOffsetId = Some 500, channelId = Some 1\<rparr>\<rparr>"

definition writtenOffsets :: "(unit outcome \<times> downloader) option \<Rightarrow> int option list" where
  "writtenOffsets run =
     (case run of None \<Rightarrow> [] | Some (r, d') \<Rightarrow> map messageOffsetId (selectionWrites d'))"

subsection \<open>Downloading one message\<close>


definition resetFileReferenceTracking :: "downloader \<Rightarrow> downloader" where
  "resetFileReferenceTracking d =
     (if consecutiveFileRefErrors d > 0 then d\<lparr>consecutiveFileRefErrors := 0\<rparr> else d)"

text \<open>
  The two requests that \<^verbatim>\<open>downloadMessage\<close> sends out are parameters:
  \<^verbatim>\<open>downloadMessageMedia(client, message, mediaPath, ...)\<close>, which returns a truthy
  or falsy result or throws and may write files, and
  \<^verbatim>\<open>refreshMessageWithStrategies(client, channelId, message, attempt)\<close>, which returns
  a message or \<^verbatim>\<open>null\<close> and catches its own errors.
\<close>

type_synonym media_downloader = "message \<Rightarrow> string \<Rightarrow> downloader \<Rightarrow> bool outcome \<times> downloader"












text \<open>
  Test doubles: a download that leaves \<open>n\<close> bytes at the media path and reports
  success, and a refresh that finds nothing.
\<close>

definition writesBytes :: "nat \<Rightarrow> media_downloader" where
  "writesBytes n msg filePath d = (Returned True, d\<lparr>files := (files d)(filePath \<mapsto> File n)\<rparr>)"





subsection \<open>Uploading one message\<close>

text \<open>
  \<^verbatim>\<open>uploadMessage(client, message, mediaPath, isSingleFile)\<close> (lines 747 to 845). The
  request \<^verbatim>\<open>uploadMessageToChannel\<close> is the parameter of that name: it returns a
  truthy or falsy result or throws. \<^verbatim>\<open>checkRateLimit()\<close>, which counts the request
  and waits, is the parameter \<open>checkRateLimit\<close>, any state transformer that returns
  or throws. A target channel is set when it is neither \<^verbatim>\<open>null\<close> nor 0.
\<close>

type_synonym limiter = "downloader \<Rightarrow> unit outcome \<times> downloader"

definition truthyChannel :: "int option \<Rightarrow> bool" where
  "truthyChannel t = (case t of None \<Rightarrow> False | Some c \<Rightarrow> c \<noteq> 0)"

definition uploadRetries :: "bool \<Rightarrow> nat" where
  "uploadRetries isSingleFile = (if isSingleFile then 8 else 15)"

text \<open>The \<^verbatim>\<open>try\<close> block of the loop (lines 752 to 791).\<close>

definition uploadTry ::
  "uploader \<Rightarrow> limiter \<Rightarrow> message \<Rightarrow> string option \<Rightarrow> bool \<Rightarrow> downloader
     \<Rightarrow> bool outcome \<times> downloader" where
  "uploadTry uploadMessageToChannel checkRateLimit msg filePath isSingleFile d =
     (if \<not> uploadMode d \<or> \<not> truthyChannel (targetChannelId d) then (Returned False, d)
      else
        case (if \<not> isSingleFile then checkRateLimit d else (Returned (), d)) of
          (Threw error, d1) \<Rightarrow> (Threw error, d1)
        | (Returned u, d1) \<Rightarrow>
            (case uploadMessageToChannel msg filePath isSingleFile d1 of
               (Threw error, d2) \<Rightarrow> (Threw error, d2)
             | (Returned result, d2) \<Rightarrow>
                 if result then
                   (case (case filePath of
                            None \<Rightarrow> Returned d2
                          | Some p \<Rightarrow>
                              if p \<noteq> [] \<and> existsSync p d2 then
                                (case statSize p d2 of
                                   Threw error \<Rightarrow> Threw error
                                 | Returned fileSize \<Rightarrow> Returned (updateSpeed (real fileSize) d2))
                              else Returned d2) of
                      Threw error \<Rightarrow> (Threw error, d2)
                    | Returned d3 \<Rightarrow>
                        (Returned True,
                         updateFloodWaitHistory False 0
                           (d3\<lparr>totalUploaded := totalUploaded d3 + 1\<rparr>)))
                 else (Threw ''Upload returned false'', d2)))"

text \<open>
  The loop \<^verbatim>\<open>while (attempt < maxRetries)\<close> with its handler (lines 792 to 841):
  the handler counts the attempt, returns \<^verbatim>\<open>false\<close> at once for
  \<^verbatim>\<open>CHAT_FORWARDS_RESTRICTED\<close>, waits and goes on for \<^verbatim>\<open>FLOOD_WAIT\<close> and for
  any other error while attempts remain, and after the last attempt waits and sends once
  more, returning \<^verbatim>\<open>false\<close> when that fails too.
\<close>

function uploadAttempts ::
  "uploader \<Rightarrow> limiter \<Rightarrow> message \<Rightarrow> string option \<Rightarrow> bool \<Rightarrow> nat \<Rightarrow> downloader
     \<Rightarrow> bool outcome \<times> downloader" where
  "uploadAttempts uploadMessageToChannel checkRateLimit msg filePath isSingleFile attempt d =
     (if attempt < uploadRetries isSingleFile then
        (case uploadTry uploadMessageToChannel checkRateLimit msg filePath isSingleFile d of
           (Returned r, d1) \<Rightarrow> (Returned r, d1)
         | (Threw error, d1) \<Rightarrow>
             if str_includes error ''CHAT_FORWARDS_RESTRICTED'' then (Returned False, d1)
             else if str_includes error ''FLOOD_WAIT'' then
               uploadAttempts uploadMessageToChannel checkRateLimit msg filePath isSingleFile
                 (attempt + 1)
                 (precisionDelay
                    (if isSingleFile then min (real (floodWaitSeconds error) * 1000) 30000
                     else real (floodWaitSeconds error) * 1000)
                    (updateFloodWaitHistory True 0 d1))
             else if attempt + 1 < uploadRetries isSingleFile then
               uploadAttempts uploadMessageToChannel checkRateLimit msg filePath isSingleFile
                 (attempt + 1)
                 (precisionDelay
                    (if isSingleFile then min 1500 (250 * real (attempt + 1))
                     else min 3000 (400 * real (attempt + 1))) d1)
             else
               (case uploadMessageToChannel msg filePath isSingleFile
                       (precisionDelay (if isSingleFile then 3000 else 10000) d1) of
                  (Returned finalResult, d3) \<Rightarrow>
                    if finalResult
                    then (Returned True, d3\<lparr>totalUploaded := totalUploaded d3 + 1\<rparr>)
                    else (Returned False, d3)
                | (Threw finalError, d3) \<Rightarrow> (Returned False, d3)))
      else (Returned False, d))"
  by pat_completeness auto
termination
  by (relation "measure (\<lambda>(send, limit, msg, filePath, isSingleFile, attempt, d).
                  uploadRetries isSingleFile - attempt)") auto

declare uploadAttempts.simps [simp del]

definition uploadMessage :: "uploader \<Rightarrow> limiter \<Rightarrow> uploader" where
  "uploadMessage uploadMessageToChannel checkRateLimit msg filePath isSingleFile d =
     uploadAttempts uploadMessageToChannel checkRateLimit msg filePath isSingleFile 0 d"

text \<open>
  An uploader that returns at every call. Test doubles: a target channel that refuses
  every message with \<^verbatim>\<open>CHAT_FORWARDS_RESTRICTED\<close>, a rate-limit check that does
  nothing, and a fresh state in upload mode with the target channel 9.
\<close>

definition neverThrows :: "uploader \<Rightarrow> bool" where
  "neverThrows um = (\<forall>m p b d. \<exists>r d'. um m p b d = (Returned r, d'))"

definition forwardsRestricted :: uploader where
  "forwardsRestricted msg filePath isSingleFile d = (Threw ''CHAT_FORWARDS_RESTRICTED'', d)"

definition noRateLimit :: limiter where
  "noRateLimit d = (Returned (), d)"

definition uploadingTo9 :: downloader where
  "uploadingTo9 = freshDownloader\<lparr>uploadMode := True, targetChannelId := Some 9\<rparr>"

definition completedCount :: "'a \<times> 'b \<times> 'c \<times> nat \<times> 'd \<Rightarrow> nat" where
  "completedCount r = fst (snd (snd (snd r)))"

text \<open>
  The same state after the user has chosen selective mode from the message id 1000; and
  two readings of a run: whether it returned, and the offset the file holds after it.
\<close>

definition selectiveFrom1000 :: downloader where
  "selectiveFrom1000 = storedAt500\<lparr>selectiveMode := True, startFromMessageId := 1000\<rparr>"

definition returnedNormally :: "(unit outcome \<times> downloader) option \<Rightarrow> bool" where
  "returnedNormally run = (case run of Some (Returned u, d') \<Rightarrow> True | _ \<Rightarrow> False)"

definition offsetAfter :: "(unit outcome \<times> downloader) option \<Rightarrow> int option" where
  "offsetAfter run = (case run of None \<Rightarrow> None | Some (r, d') \<Rightarrow> storedOffset d')"

section \<open>Properties of the speed monitor\<close>

lemma factorWithin_initialize: "factorWithin 2 5 (initializeSpeedMonitor d)"
  by (simp add: factorWithin_def initializeSpeedMonitor_def)

lemma factorWithin_clock: "factorWithin lo hi (d\<lparr>clock := t\<rparr>) = factorWithin lo hi d"
  by (simp add: factorWithin_def)

lemma factorWithin_updateSpeed:
  assumes "factorWithin 2 5 d"
  shows "factorWithin 2 5 (updateSpeed bytes d)"
proof -
  from assms obtain m where m: "speedMonitor d = Some m"
    and lo: "2 \<le> stabilizationFactor m" and hi: "stabilizationFactor m \<le> 5"
    by (auto simp: factorWithin_def split: option.splits)
  show ?thesis
    using lo hi
    by (simp add: updateSpeed_def m factorWithin_def Let_def min_def max_def)
qed

lemma factorWithin_feedSamples:
  "factorWithin 2 5 d \<Longrightarrow> factorWithin 2 5 (feedSamples samples d)"
proof (induction samples arbitrary: d)
  case Nil
  then show ?case by simp
next
  case (Cons p rest)
  obtain t bytes where p: "p = (t, bytes)" by (cases p)
  have "factorWithin 2 5 (updateSpeed bytes (d\<lparr>clock := t\<rparr>))"
    using Cons.prems by (intro factorWithin_updateSpeed) (simp add: factorWithin_clock)
  then show ?case using Cons.IH by (simp add: p)
qed

text \<open>
  Claim C8. From the initial factor 3.0, every sequence of \<^verbatim>\<open>updateSpeed\<close>
  calls, at any clock readings and with any byte counts (so whichever of the below-low,
  at-or-above-high, in-between and emergency branches each call takes), leaves
  \<^verbatim>\<open>stabilizationFactor\<close> within the bounds 2.0 and 5.0.
\<close>

theorem stabilizationFactor_bounded:
  "factorWithin 2.0 5.0 (feedSamples samples (initializeSpeedMonitor d))"
  using factorWithin_feedSamples [OF factorWithin_initialize] by simp

theorem stabilizationFactor_bounded_witness:
  "factorWithin 2.0 5.0
     (feedSamples [(1000, 100), (2000, 9000000), (2500, 0), (2600, 0), (2700, 0)]
        (initializeSpeedMonitor freshDownloader))"
  using stabilizationFactor_bounded
    [of "[(1000, 100), (2000, 9000000), (2500, 0), (2600, 0), (2700, 0)]" freshDownloader]
  by simp

section \<open>Properties of the retry engine\<close>

lemma events_sleep [simp]: "events (sleep ms d) = events d"
  by (simp add: sleep_def)

lemma events_precisionDelay [simp]: "events (precisionDelay ms d) = events d"
  by (simp add: precisionDelay_def)

lemma events_updateFloodWaitHistory [simp]:
  "events (updateFloodWaitHistory b w d) = events d"
  by (simp add: updateFloodWaitHistory_def Let_def)

lemma speedMonitor_updateFloodWaitHistory [simp]:
  "speedMonitor (updateFloodWaitHistory b w d) = speedMonitor d"
  by (simp add: updateFloodWaitHistory_def Let_def)

lemma speedBoostMode_updateFloodWaitHistory [simp]:
  "speedBoostMode (updateFloodWaitHistory b w d) = speedBoostMode d"
  by (simp add: updateFloodWaitHistory_def Let_def)

lemma factorWithin_updateFloodWaitHistory [simp]:
  "factorWithin lo hi (updateFloodWaitHistory b w d) = factorWithin lo hi d"
  by (simp add: factorWithin_def)





lemma retryFrom_flood_step:
  assumes "attempt \<le> maxRetries"
    and "operation (d\<lparr>events := events d @ [Attempt attempt]\<rparr>) = (Threw msg, d1)"
    and "str_includes msg ''FLOOD_WAIT''"
    and "floodWaitSeconds msg \<le> 300"
  shows "retryFrom operation maxRetries attempt d =
         retryFrom operation maxRetries (attempt + 1)
           (precisionDelay (real (floodWaitSeconds msg) * 1000)
              (updateFloodWaitHistory True (real (floodWaitSeconds msg)) d1))"
  using assms by (subst retryFrom.simps) simp

lemma retryFrom_exhausted:
  "maxRetries < attempt \<Longrightarrow> retryFrom operation maxRetries attempt d = (Returned None, d)"
  by (subst retryFrom.simps) simp

lemma retryFrom_success:
  assumes "attempt \<le> maxRetries"
    and "operation (d\<lparr>events := events d @ [Attempt attempt]\<rparr>) = (Returned r, d1)"
  shows "retryFrom operation maxRetries attempt d =
         (Returned (Some r), if attempt > 1 then updateFloodWaitHistory False 0 d1 else d1)"
  using assms by (subst retryFrom.simps) simp

lemma slept_updateFloodWaitHistory [simp]:
  "slept (updateFloodWaitHistory b w d) = slept d"
  by (simp add: updateFloodWaitHistory_def Let_def)

lemma speedMonitor_precisionDelay [simp]:
  "speedMonitor (precisionDelay ms d) = speedMonitor d"
  by (simp add: precisionDelay_def sleep_def)


lemma retryFrom_transient:
  assumes fails: "\<And>d. \<exists>msg d'. operation d = (Threw msg, d') \<and>
              \<not> str_includes msg ''FLOOD_WAIT'' \<and> events d' = events d"
  shows "n = maxRetries - attempt \<Longrightarrow> attempt \<le> maxRetries \<Longrightarrow>
         \<exists>msg d0 d'. retryFrom operation maxRetries attempt d = (Threw msg, d') \<and>
            operation d0 = (Threw msg, d') \<and>
            events d0 = events d @ map Attempt [attempt..<Suc maxRetries] \<and>
            events d' = events d0"
proof (induction n arbitrary: attempt d)
  case 0
  then have a: "attempt = maxRetries" by simp
  let ?d0 = "d\<lparr>events := events d @ [Attempt attempt]\<rparr>"
  from fails [of ?d0] obtain msg d' where op: "operation ?d0 = (Threw msg, d')"
    and nf: "\<not> str_includes msg ''FLOOD_WAIT''" and ev: "events d' = events ?d0"
    by blast
  have "retryFrom operation maxRetries attempt d = (Threw msg, d')"
    using a op nf by (subst retryFrom.simps) simp
  moreover have "events ?d0 = events d @ map Attempt [attempt..<Suc maxRetries]"
    using a by simp
  ultimately show ?case using op ev by blast
next
  case (Suc n)
  then have lt: "attempt < maxRetries" by simp
  let ?d0 = "d\<lparr>events := events d @ [Attempt attempt]\<rparr>"
  from fails [of ?d0] obtain msg d1 where op: "operation ?d0 = (Threw msg, d1)"
    and nf: "\<not> str_includes msg ''FLOOD_WAIT''" and ev: "events d1 = events ?d0"
    by blast
  let ?d2 = "precisionDelay (min 500 (100 * real attempt)) d1"
  have step: "retryFrom operation maxRetries attempt d =
              retryFrom operation maxRetries (attempt + 1) ?d2"
    using lt op nf by (subst retryFrom.simps) simp
  have n: "n = maxRetries - (attempt + 1)" and le: "attempt + 1 \<le> maxRetries"
    using Suc.prems lt by simp_all
  from Suc.IH [OF n le, of ?d2]
  obtain m d0 d' where r: "retryFrom operation maxRetries (attempt + 1) ?d2 = (Threw m, d')"
    and o: "operation d0 = (Threw m, d')"
    and e: "events d0 = events ?d2 @ map Attempt [attempt + 1..<Suc maxRetries]"
    and e': "events d' = events d0"
    by blast
  have "events d0 = events d @ map Attempt [attempt..<Suc maxRetries]"
    using e ev lt by (simp add: upt_conv_Cons)
  then show ?case using step r o e' by auto
qed





text \<open>
  Claim C3. For an operation that throws an error other than \<^verbatim>\<open>FLOOD_WAIT\<close> on
  every invocation (and leaves the observation log alone), \<^verbatim>\<open>retryOperation\<close>
  with a budget of at least one attempt invokes it exactly \<open>maxRetries\<close> times,
  numbered 1 to \<open>maxRetries\<close>, and then throws to its caller the error of the last
  invocation, in the state that invocation left: no wait and no attempt follows.
\<close>

theorem bounded_retries:
  assumes "0 < maxRetries"
    and "\<And>d. \<exists>msg d'. operation d = (Threw msg, d') \<and>
              \<not> str_includes msg ''FLOOD_WAIT'' \<and> events d' = events d"
  shows "\<exists>msg d0 d'. retryOperation operation maxRetries d = (Threw msg, d') \<and>
            operation d0 = (Threw msg, d') \<and>
            events d0 = events d @ map Attempt [1..<Suc maxRetries] \<and>
            events d' = events d0"
  unfolding retryOperation_def
  using retryFrom_transient [OF assms(2) refl, of 1 maxRetries d] assms(1) by simp

theorem bounded_retries_witness:
  "\<exists>msg d0 d'. retryOperation alwaysTimeout 3 freshDownloader = (Threw msg, d') \<and>
      alwaysTimeout d0 = (Threw msg, d') \<and>
      events d0 = [Attempt 1, Attempt 2, Attempt 3] \<and> events d' = events d0"
  using bounded_retries [of 3 alwaysTimeout freshDownloader]
  by (simp add: alwaysTimeout_def freshDownloader_def upt_conv_Cons numeral_2_eq_2
      numeral_3_eq_3)

section \<open>Properties of the sequential upload queue\<close>

lemma callsOnly_Nil [simp]: "callsOnly i []"
  by (simp add: callsOnly_def)

lemma callsOnly_append [simp]: "callsOnly i (a @ b) = (callsOnly i a \<and> callsOnly i b)"
  by (auto simp add: callsOnly_def)

lemma callsOnly_single [simp]: "callsOnly i [UploadCall i]" "callsOnly i [Attempt n]"
  by (simp_all add: callsOnly_def)

lemma inRecord_calls:
  "callsOnly i seg \<Longrightarrow> inRecord i ids (seg @ UploadCompleted i # rest) = queueLog ids rest"
proof (induction seg)
  case Nil
  then show ?case by simp
next
  case (Cons e seg)
  then have "callsOnly i seg" and "e = UploadCall i \<or> (\<exists>n. e = Attempt n)"
    by (auto simp add: callsOnly_def)
  then show ?case using Cons.IH by auto
qed

lemma queueLog_record:
  "callsOnly i seg \<Longrightarrow>
   queueLog (i # ids) (UploadStarted i # seg @ UploadCompleted i # rest) = queueLog ids rest"
  by (simp add: inRecord_calls)

lemma events_uploadOperation:
  assumes "quietUploader um" and "keepsEvents rc"
  shows "events (snd (uploadOperation um rc single cur d))
         = events d @ [UploadCall (msgId (message cur))]"
proof -
  let ?d0 = "d\<lparr>events := events d @ [UploadCall (msgId (message cur))]\<rparr>"
  let ?p = "if truthyPath (mediaPath cur) then mediaPath cur else None"
  have u: "events (snd (um (message cur) ?p single ?d0)) = events ?d0"
    using assms(1) by (simp add: quietUploader_def keepsEvents_def)
  obtain r d1 where um: "um (message cur) ?p single ?d0 = (r, d1)" by (cases "um (message cur) ?p single ?d0")
  have e1: "events d1 = events ?d0" using u um by simp
  have rcq: "events (snd (rc d1)) = events d1" using assms(2) by (simp add: keepsEvents_def)
  obtain r2 d2 where rc: "rc d1 = (r2, d2)" by (cases "rc d1")
  have e2: "events d2 = events d1" using rcq rc by simp
  show ?thesis
    using e1 e2 by (cases r; cases r2) (simp_all add: uploadOperation_def um rc)
qed

lemma retryFrom_cases:
  assumes le: "attempt \<le> maxRetries"
    and o: "operation (d\<lparr>events := events d @ [Attempt attempt]\<rparr>) = (r, d1)"
  shows "(\<exists>v d'. retryFrom operation maxRetries attempt d = (Returned (Some v), d')
              \<and> r = Returned v \<and> events d' = events d1)
       \<or> (\<exists>msg d'. retryFrom operation maxRetries attempt d = (Threw msg, d')
              \<and> r = Threw msg \<and> attempt = maxRetries \<and> events d' = events d1)
       \<or> (\<exists>dn. retryFrom operation maxRetries attempt d
                   = retryFrom operation maxRetries (attempt + 1) dn
              \<and> events dn = events d1 \<and> (\<exists>msg. r = Threw msg))"
proof (cases r)
  case (Returned v)
  have "retryFrom operation maxRetries attempt d =
        (Returned (Some v), if attempt > 1 then updateFloodWaitHistory False 0 d1 else d1)"
    using le o Returned by (intro retryFrom_success) simp_all
  then show ?thesis using Returned by simp
next
  case (Threw msg)
  let ?w = "real (floodWaitSeconds msg)"
  let ?d2 = "if str_includes msg ''FLOOD_WAIT'' then updateFloodWaitHistory True ?w d1 else d1"
  have e2: "events ?d2 = events d1" by simp
  note u = retryFrom.simps [of operation maxRetries attempt d]
  consider (flood) "str_includes msg ''FLOOD_WAIT''" "floodWaitSeconds msg \<le> 300"
    | (last) "\<not> (str_includes msg ''FLOOD_WAIT'' \<and> floodWaitSeconds msg \<le> 300)"
        "attempt = maxRetries"
    | (more) "\<not> (str_includes msg ''FLOOD_WAIT'' \<and> floodWaitSeconds msg \<le> 300)"
        "attempt \<noteq> maxRetries"
    by blast
  then show ?thesis
  proof cases
    case flood
    have "retryFrom operation maxRetries attempt d =
          retryFrom operation maxRetries (attempt + 1)
            (precisionDelay (?w * 1000) (updateFloodWaitHistory True ?w d1))"
      using le o Threw flood by (intro retryFrom_flood_step) simp_all
    moreover have "events (precisionDelay (?w * 1000) (updateFloodWaitHistory True ?w d1))
                   = events d1" by simp
    ultimately show ?thesis using Threw by blast
  next
    case last
    have "retryFrom operation maxRetries attempt d = (Threw msg, ?d2)"
      using le o Threw last by (subst u) (auto simp add: Let_def)
    then show ?thesis using Threw last e2 by simp
  next
    case more
    have "retryFrom operation maxRetries attempt d =
          retryFrom operation maxRetries (attempt + 1)
            (precisionDelay (min 500 (100 * real attempt)) ?d2)"
      using le o Threw more by (subst u) (auto simp add: Let_def)
    moreover have "events (precisionDelay (min 500 (100 * real attempt)) ?d2) = events d1"
      by simp
    ultimately show ?thesis using Threw by blast
  qed
qed

lemma events_retryFrom:
  assumes op: "\<And>d. events (snd (operation d)) = events d @ [c]"
  shows "n = Suc maxRetries - attempt \<Longrightarrow>
         \<exists>seg. events (snd (retryFrom operation maxRetries attempt d)) = events d @ seg
           \<and> set seg \<subseteq> insert c (range Attempt)"
proof (induction n arbitrary: attempt d)
  case 0
  then have "maxRetries < attempt" by simp
  then show ?case by (simp add: retryFrom_exhausted)
next
  case (Suc n)
  then have le: "attempt \<le> maxRetries" by simp
  let ?d0 = "d\<lparr>events := events d @ [Attempt attempt]\<rparr>"
  obtain r d1 where o: "operation ?d0 = (r, d1)" by (cases "operation ?d0")
  have e1: "events d1 = events d @ [Attempt attempt, c]" using op [of ?d0] o by simp
  from retryFrom_cases [of attempt maxRetries operation d r d1, OF le o]
  consider (final) res d' where "retryFrom operation maxRetries attempt d = (res, d')"
      "events d' = events d1"
    | (again) dn where "retryFrom operation maxRetries attempt d
                   = retryFrom operation maxRetries (attempt + 1) dn" "events dn = events d1"
    by blast
  then show ?case
  proof cases
    case final
    then show ?thesis using e1 by auto
  next
    case again
    have "n = Suc maxRetries - (attempt + 1)" using Suc.prems by simp
    from Suc.IH [OF this, of dn] obtain seg where
      "events (snd (retryFrom operation maxRetries (attempt + 1) dn)) = events dn @ seg"
      "set seg \<subseteq> insert c (range Attempt)" by blast
    then show ?thesis using again e1 by auto
  qed
qed


lemma markCompleted_simps [simp]:
  "markCompleted cur success toEnd d = (cur', success', toEnd', d') \<longleftrightarrow>
     cur' = cur\<lparr>uploadCompleted := True\<rparr> \<and> success' = success \<and> toEnd' = toEnd
     \<and> d' = d\<lparr>events := events d @ [UploadCompleted (msgId (message cur))]\<rparr>"
  by (auto simp add: markCompleted_def)

lemma uploadCatch_events:
  assumes q: "quietUploader um"
    and r: "uploadCatch um single cur error d = (cur', success, toEnd, d1)"
  shows "cur' = cur\<lparr>uploadCompleted := True\<rparr> \<and>
         (\<exists>seg. events d1 = events d @ seg @ [UploadCompleted (msgId (message cur))]
                \<and> callsOnly (msgId (message cur)) seg) \<and>
         (\<not> str_includes error ''FLOOD_WAIT'' \<longrightarrow> \<not> success)"
proof (cases "str_includes error ''FLOOD_WAIT''")
  case False
  then show ?thesis using r by (simp add: uploadCatch_def)
next
  case True
  let ?i = "msgId (message cur)"
  let ?d1 = "precisionDelay (real (floodWaitSeconds error) * 1000) d"
  let ?d2 = "?d1\<lparr>events := events ?d1 @ [UploadCall ?i]\<rparr>"
  obtain res d3 where u: "um (message cur) (mediaPath cur) single ?d2 = (res, d3)"
    by (cases "um (message cur) (mediaPath cur) single ?d2")
  have "events (snd (um (message cur) (mediaPath cur) single ?d2)) = events ?d2"
    using q by (simp add: quietUploader_def keepsEvents_def)
  then have e3: "events d3 = events d @ [UploadCall ?i]" using u by simp
  have "cur' = cur\<lparr>uploadCompleted := True\<rparr> \<and>
        d1 = d3\<lparr>events := events d3 @ [UploadCompleted ?i]\<rparr>"
    using r True u by (cases res) (auto simp add: uploadCatch_def Let_def split: if_splits)
  then have "cur' = cur\<lparr>uploadCompleted := True\<rparr>"
    and "events d1 = events d @ [UploadCall ?i] @ [UploadCompleted ?i]"
    using e3 by simp_all
  moreover have "callsOnly ?i [UploadCall ?i]" by simp
  ultimately show ?thesis using True by blast
qed

lemma retryOperation_events_upload:
  assumes "quietUploader um" and "keepsEvents rc"
  shows "\<exists>seg. events (snd (retryOperation (uploadOperation um rc single cur) n d))
                 = events d @ seg \<and> callsOnly (msgId (message cur)) seg"
  unfolding retryOperation_def callsOnly_def
  using events_retryFrom [of "uploadOperation um rc single cur"
      "UploadCall (msgId (message cur))" _ n 1 d, OF events_uploadOperation [OF assms] refl]
  by simp

lemma uploadOperation_throws:
  assumes "onlyThrows um rc"
  shows "\<exists>e d'. uploadOperation um rc single cur d = (Threw e, d')
            \<and> \<not> str_includes e ''FLOOD_WAIT''"
proof -
  let ?d0 = "d\<lparr>events := events d @ [UploadCall (msgId (message cur))]\<rparr>"
  let ?p = "if truthyPath (mediaPath cur) then mediaPath cur else None"
  from assms obtain e d1 where u: "um (message cur) ?p single ?d0 = (Threw e, d1)"
    and nf: "\<not> str_includes e ''FLOOD_WAIT''"
    unfolding onlyThrows_def by blast
  obtain r2 d2 where rc: "rc d1 = (r2, d2)" by (cases "rc d1")
  have "\<not> str_includes e2 ''FLOOD_WAIT''" if "r2 = Threw e2" for e2
    using assms rc that unfolding onlyThrows_def by blast
  then show ?thesis
    using nf by (cases r2) (simp_all add: uploadOperation_def u rc)
qed

lemma retryFrom_only_throws:
  assumes fails: "\<And>d. \<exists>e d'. operation d = (Threw e, d') \<and> \<not> str_includes e ''FLOOD_WAIT''"
  shows "n = maxRetries - attempt \<Longrightarrow> attempt \<le> maxRetries \<Longrightarrow>
         \<exists>e d'. retryFrom operation maxRetries attempt d = (Threw e, d')
            \<and> \<not> str_includes e ''FLOOD_WAIT''"
proof (induction n arbitrary: attempt d)
  case 0
  let ?d0 = "d\<lparr>events := events d @ [Attempt attempt]\<rparr>"
  from fails [of ?d0] obtain e d1 where o: "operation ?d0 = (Threw e, d1)"
    and nf: "\<not> str_includes e ''FLOOD_WAIT''" by blast
  have "retryFrom operation maxRetries attempt d = (Threw e, d1)"
    using 0 o nf by (subst retryFrom.simps) simp
  then show ?case using nf by blast
next
  case (Suc n)
  let ?d0 = "d\<lparr>events := events d @ [Attempt attempt]\<rparr>"
  from fails [of ?d0] obtain e d1 where o: "operation ?d0 = (Threw e, d1)"
    and nf: "\<not> str_includes e ''FLOOD_WAIT''" by blast
  have lt: "attempt < maxRetries" using Suc.prems by simp
  have "retryFrom operation maxRetries attempt d =
        retryFrom operation maxRetries (attempt + 1)
          (precisionDelay (min 500 (100 * real attempt)) d1)"
    using lt o nf by (subst retryFrom.simps) simp
  moreover have "n = maxRetries - (attempt + 1)" "attempt + 1 \<le> maxRetries"
    using Suc.prems lt by simp_all
  ultimately show ?case using Suc.IH by simp
qed

lemma uploadTurn_events:
  assumes qu: "quietUploader um" and qr: "keepsEvents rc"
    and prev: "i = 0 \<or> uploadCompleted (q ! (i - 1))"
    and r: "uploadTurn um rc single q i d = (cur', success, toEnd, d1)"
  shows "uploadCompleted cur' \<and> uploadStarted cur' \<and> message cur' = message (q ! i) \<and>
         (\<exists>seg. events d1 = events d @ UploadStarted (msgId (message (q ! i))) # seg
                     @ [UploadCompleted (msgId (message (q ! i)))]
                \<and> callsOnly (msgId (message (q ! i))) seg) \<and>
         (onlyThrows um rc \<longrightarrow> \<not> success)"
proof -
  let ?i = "msgId (message (q ! i))"
  define verified where "verified =
     (if truthyPath (mediaPath (q ! i)) \<and> \<not> existsSync (the (mediaPath (q ! i))) d
      then (q ! i)\<lparr>mediaPath := None\<rparr> else q ! i)"
  define started where "started = verified\<lparr>uploadStarted := True\<rparr>"
  define d0 where "d0 = d\<lparr>events := events d @ [UploadStarted ?i]\<rparr>"
  have w: "waitForPrevious q i d = (Returned (), d)"
    using prev by (auto simp add: waitForPrevious_def)
  have ms: "message started = message (q ! i)" and st: "uploadStarted started"
    by (simp_all add: started_def verified_def)
  obtain res d2 where ro: "retryOperation (uploadOperation um rc single started) 5 d0 = (res, d2)"
    by (cases "retryOperation (uploadOperation um rc single started) 5 d0")
  from retryOperation_events_upload [OF qu qr, of single started 5 d0] ro ms
  obtain seg1 where e2: "events d2 = events d0 @ seg1" and c1: "callsOnly ?i seg1"
    by auto
  have turn: "uploadTurn um rc single q i d =
              (case res of Threw error \<Rightarrow> uploadCatch um single started error d2
               | Returned v \<Rightarrow> markCompleted started True True d2)"
    using ro unfolding started_def verified_def d0_def
    by (simp add: uploadTurn_def w Let_def split: outcome.splits)
  show ?thesis
  proof (cases res)
    case (Returned v)
    then have "cur' = started\<lparr>uploadCompleted := True\<rparr>"
      and "d1 = d2\<lparr>events := events d2 @ [UploadCompleted ?i]\<rparr>"
      using r turn ms by simp_all
    then have "uploadCompleted cur'" "uploadStarted cur'" "message cur' = message (q ! i)"
      and "events d1 = events d @ UploadStarted ?i # seg1 @ [UploadCompleted ?i]"
      using ms st e2 by (simp_all add: d0_def)
    moreover have "\<not> onlyThrows um rc"
    proof
      assume ot: "onlyThrows um rc"
      have "\<exists>e d'. retryFrom (uploadOperation um rc single started) 5 1 d0 = (Threw e, d')
                \<and> \<not> str_includes e ''FLOOD_WAIT''"
        by (rule retryFrom_only_throws [OF uploadOperation_throws [OF ot] refl]) simp
      then show False using ro Returned by (simp add: retryOperation_def)
    qed
    ultimately show ?thesis using c1 by blast
  next
    case (Threw error)
    then have c: "uploadCatch um single started error d2 = (cur', success, toEnd, d1)"
      using r turn by simp
    from uploadCatch_events [OF qu c] ms
    obtain seg2 where cu: "cur' = started\<lparr>uploadCompleted := True\<rparr>"
      and e1: "events d1 = events d2 @ seg2 @ [UploadCompleted ?i]"
      and c2: "callsOnly ?i seg2"
      and nf: "\<not> str_includes error ''FLOOD_WAIT'' \<longrightarrow> \<not> success"
      by auto
    have "uploadCompleted cur'" "uploadStarted cur'" "message cur' = message (q ! i)"
      using cu ms st by simp_all
    moreover have "events d1 = events d @ UploadStarted ?i # (seg1 @ seg2) @ [UploadCompleted ?i]"
      using e1 e2 by (simp add: d0_def)
    moreover have "callsOnly ?i (seg1 @ seg2)" using c1 c2 by simp
    moreover have "\<not> success" if ot: "onlyThrows um rc"
    proof -
      have "\<exists>e d'. retryFrom (uploadOperation um rc single started) 5 1 d0 = (Threw e, d')
                \<and> \<not> str_includes e ''FLOOD_WAIT''"
        by (rule retryFrom_only_throws [OF uploadOperation_throws [OF ot] refl]) simp
      then have "\<not> str_includes error ''FLOOD_WAIT''"
        using ro Threw by (simp add: retryOperation_def)
      then show ?thesis using nf by simp
    qed
    ultimately show ?thesis by blast
  qed
qed


lemma length_signalNext [simp]: "length (signalNext i q) = length q"
  by (simp add: signalNext_def)

lemma signalNext_nth:
  "j < length q \<Longrightarrow>
   signalNext i q ! j =
     (if j = i + 1 then (q ! j)\<lparr>readyToUpload := True, waitingForPrevious := False\<rparr>
      else q ! j)"
  by (simp add: signalNext_def nth_list_update)

lemma uploadLoop_step:
  assumes "i < length q"
    and "uploadTurn um rc single q i d = (cur', success, toEnd, d1)"
  shows "uploadLoop um rc single i q rs c d =
         uploadLoop um rc single (i + 1)
           (if toEnd then signalNext i (q[i := cur']) else q[i := cur'])
           (rs @ [(success, i)]) (if success then c + 1 else c)
           (if toEnd \<and> i + 1 < length q
            then precisionDelay (if single then 100 else 500) d1 else d1)"
  using assms by (subst uploadLoop.simps) simp

lemma uploadLoop_log:
  assumes qu: "quietUploader um" and qr: "keepsEvents rc"
  shows "n = length q - i \<Longrightarrow> i \<le> length q \<Longrightarrow> (\<forall>j<i. uploadCompleted (q ! j)) \<Longrightarrow>
    uploadLoop um rc single i q rs c d = (q', rs', c', d') \<Longrightarrow>
    length q' = length q \<and> map message q' = map message q \<and>
    (\<forall>j<length q. i \<le> j \<longrightarrow> uploadStarted (q' ! j) \<and> uploadCompleted (q' ! j)) \<and>
    (\<forall>j<i. uploadStarted (q' ! j) = uploadStarted (q ! j) \<and> uploadCompleted (q' ! j)) \<and>
    map snd rs' = map snd rs @ [i..<length q] \<and>
    (onlyThrows um rc \<longrightarrow> map fst rs' = map fst rs @ replicate (length q - i) False) \<and>
    (\<exists>es. events d' = events d @ es
          \<and> queueLog (drop i (map (\<lambda>e. msgId (message e)) q)) es)"
proof (induction n arbitrary: i q rs c d)
  case 0
  then have "i = length q" by simp
  then have "uploadLoop um rc single i q rs c d = (q, rs, c, d)"
    by (subst uploadLoop.simps) simp
  then show ?case using 0 by auto
next
  case (Suc n)
  then have lt: "i < length q" by simp
  let ?ids = "map (\<lambda>e. msgId (message e)) q"
  obtain cur' success toEnd d1 where
    t: "uploadTurn um rc single q i d = (cur', success, toEnd, d1)"
    by (cases "uploadTurn um rc single q i d") auto
  define q2 where "q2 = (if toEnd then signalNext i (q[i := cur']) else q[i := cur'])"
  define d2 where "d2 = (if toEnd \<and> i + 1 < length q
            then precisionDelay (if single then 100 else 500) d1 else d1)"
  have prev: "i = 0 \<or> uploadCompleted (q ! (i - 1))"
    using Suc.prems(3) by (cases i) simp_all
  from uploadTurn_events [OF qu qr prev t]
  obtain seg where cc: "uploadCompleted cur'" and cs: "uploadStarted cur'"
    and cm: "message cur' = message (q ! i)"
    and e1: "events d1 = events d @ UploadStarted (?ids ! i) # seg @ [UploadCompleted (?ids ! i)]"
    and co: "callsOnly (?ids ! i) seg"
    and fl: "onlyThrows um rc \<longrightarrow> \<not> success"
    using lt by auto
  have len2: "length q2 = length q" by (simp add: q2_def)
  have nth2: "q2 ! j = (if j = i then cur'
                else if toEnd \<and> j = i + 1
                  then (q ! j)\<lparr>readyToUpload := True, waitingForPrevious := False\<rparr>
                else q ! j)" if "j < length q" for j
    using that lt by (simp add: q2_def signalNext_nth nth_list_update)
  have msg2: "map message q2 = map message q"
    by (rule nth_equalityI) (simp_all add: len2 nth2 cm)
  then have ids2: "map (\<lambda>e. msgId (message e)) q2 = ?ids"
    by (metis (no_types, lifting) map_map comp_apply map_eq_conv)
  have comp2: "\<forall>j<i + 1. uploadCompleted (q2 ! j)"
    using Suc.prems(3) lt cc by (auto simp add: nth2 less_Suc_eq)
  have ed2: "events d2 = events d1" by (simp add: d2_def)
  have loop: "uploadLoop um rc single (i + 1) q2 (rs @ [(success, i)])
                (if success then c + 1 else c) d2 = (q', rs', c', d')"
    using uploadLoop_step [OF lt t, of rs c] Suc.prems(4) by (simp add: q2_def d2_def)
  have n: "n = length q2 - (i + 1)" and le: "i + 1 \<le> length q2"
    using Suc.prems(1) lt by (simp_all add: len2)
  from Suc.IH [OF n le comp2 loop] obtain es' where
    L: "length q' = length q2" and M: "map message q' = map message q2"
    and S: "\<forall>j<length q2. i + 1 \<le> j \<longrightarrow> uploadStarted (q' ! j) \<and> uploadCompleted (q' ! j)"
    and P: "\<forall>j<i + 1. uploadStarted (q' ! j) = uploadStarted (q2 ! j) \<and> uploadCompleted (q' ! j)"
    and R: "map snd rs' = map snd (rs @ [(success, i)]) @ [i + 1..<length q2]"
    and F: "onlyThrows um rc \<longrightarrow>
            map fst rs' = map fst (rs @ [(success, i)]) @ replicate (length q2 - (i + 1)) False"
    and E: "events d' = events d2 @ es'"
    and Q: "queueLog (drop (i + 1) (map (\<lambda>e. msgId (message e)) q2)) es'"
    by blast
  have g1: "length q' = length q" using L len2 by simp
  have g2: "map message q' = map message q" using M msg2 by simp
  have g3: "\<forall>j<length q. i \<le> j \<longrightarrow> uploadStarted (q' ! j) \<and> uploadCompleted (q' ! j)"
  proof (intro allI impI)
    fix j assume j: "j < length q" "i \<le> j"
    show "uploadStarted (q' ! j) \<and> uploadCompleted (q' ! j)"
    proof (cases "j = i")
      case True
      then show ?thesis using P lt cs by (simp add: nth2)
    next
      case False
      then show ?thesis using S j len2 by simp
    qed
  qed
  have g4: "\<forall>j<i. uploadStarted (q' ! j) = uploadStarted (q ! j) \<and> uploadCompleted (q' ! j)"
    using P lt by (simp add: nth2)
  have g5: "map snd rs' = map snd rs @ [i..<length q]"
    using R lt by (simp add: len2 upt_conv_Cons)
  have g6: "map fst rs' = map fst rs @ replicate (length q - i) False" if "onlyThrows um rc"
  proof -
    have "replicate (length q - i) False = False # replicate (length q - (i + 1)) False"
      using lt by (cases "length q - i") simp_all
    then show ?thesis using F fl that by (simp add: len2)
  qed
  have "drop i ?ids = ?ids ! i # drop (i + 1) ?ids"
    using Cons_nth_drop_Suc [of i ?ids] lt by simp
  then have "queueLog (drop i ?ids)
               (UploadStarted (?ids ! i) # seg @ UploadCompleted (?ids ! i) # es')"
    using Q co by (simp add: ids2 inRecord_calls)
  moreover have "events d' =
     events d @ UploadStarted (?ids ! i) # seg @ UploadCompleted (?ids ! i) # es'"
    using E ed2 e1 by simp
  ultimately have g7: "\<exists>es. events d' = events d @ es \<and> queueLog (drop i ?ids) es"
    by blast
  show ?case using g1 g2 g3 g4 g5 g6 g7 by blast
qed

lemma message_enqueue [simp]: "message (enqueue data index) = message data"
  by (simp add: enqueue_def download_data.defs)


lemma map_enqueue:
  "map message (map (\<lambda>(data, index). enqueue data index) (zip xs [0..<length xs]))
   = map message xs"
  by (rule nth_equalityI) simp_all

lemma startedIds_append [simp]: "startedIds (a @ b) = startedIds a @ startedIds b"
  by (induction a rule: startedIds.induct) simp_all

lemma queueLog_started:
  "queueLog ids es \<Longrightarrow> startedIds es = ids"
  "inRecord i ids es \<Longrightarrow> startedIds es = ids"
  by (induction ids es and i ids es rule: queueLog_inRecord.induct) simp_all

lemma queueLog_marks:
  "queueLog ids es \<Longrightarrow>
     filter isQueueMark es = concat (map (\<lambda>i. [UploadStarted i, UploadCompleted i]) ids)"
  "inRecord i ids es \<Longrightarrow>
     filter isQueueMark es
       = UploadCompleted i # concat (map (\<lambda>i. [UploadStarted i, UploadCompleted i]) ids)"
  by (induction ids es and i ids es rule: queueLog_inRecord.induct) simp_all

lemma queueLog_calls:
  "queueLog ids es \<Longrightarrow> sorted ids \<Longrightarrow> sorted (callIds es) \<and> set (callIds es) \<subseteq> set ids"
  "inRecord i ids es \<Longrightarrow> sorted (i # ids) \<Longrightarrow>
     sorted (callIds es) \<and> set (callIds es) \<subseteq> set (i # ids)"
  by (induction ids es and i ids es rule: queueLog_inRecord.induct) auto


lemma map_insort_key: "map f (insort_key f x xs) = insort (f x) (map f xs)"
  by (induction xs) simp_all

lemma map_sort_key: "map f (sort_key f xs) = sort (map f xs)"
  by (induction xs) (simp_all add: map_insort_key)

lemma ids_sortById:
  "map (\<lambda>x. msgId (message x)) (sortById xs) = sort (map (\<lambda>x. msgId (message x)) xs)"
  by (simp add: sortById_def map_sort_key)

lemma uploadBatch_log:
  assumes qu: "quietUploader um" and qr: "keepsEvents rc" and mode: "uploadMode d"
    and run: "uploadBatch um rc downloadedData d = (sortedData, q', rs', c', d')"
  shows "sortedData = sortById downloadedData \<or> downloadedData = []"
    and "length q' = length downloadedData"
    and "map message q' = map message (sortById downloadedData)"
    and "\<forall>j<length q'. uploadStarted (q' ! j) \<and> uploadCompleted (q' ! j)"
    and "map snd rs' = [0..<length downloadedData]"
    and "onlyThrows um rc \<longrightarrow> map fst rs' = replicate (length downloadedData) False"
    and "\<exists>es. events d' = events d @ es
           \<and> queueLog (sort (map (\<lambda>x. msgId (message x)) downloadedData)) es"
proof -
  define srt where "srt = sortById downloadedData"
  define q where "q = map (\<lambda>(data, index). enqueue data index) (zip srt [0..<length srt])"
  have lq: "length q = length downloadedData" by (simp add: q_def srt_def sortById_def)
  have mq: "map message q = map message srt" unfolding q_def by (rule map_enqueue)
  have "map (\<lambda>e. msgId (message e)) q = map msgId (map message q)" by simp
  also have "\<dots> = map msgId (map message srt)" by (simp only: mq)
  finally have iq: "map (\<lambda>e. msgId (message e)) q = map (\<lambda>x. msgId (message x)) srt"
    by simp
  have all:
    "(sortedData = sortById downloadedData \<or> downloadedData = []) \<and>
     length q' = length downloadedData \<and>
     map message q' = map message (sortById downloadedData) \<and>
     (\<forall>j<length q'. uploadStarted (q' ! j) \<and> uploadCompleted (q' ! j)) \<and>
     map snd rs' = [0..<length downloadedData] \<and>
     (onlyThrows um rc \<longrightarrow> map fst rs' = replicate (length downloadedData) False) \<and>
     (\<exists>es. events d' = events d @ es
           \<and> queueLog (sort (map (\<lambda>x. msgId (message x)) downloadedData)) es)"
  proof (cases "downloadedData = []")
    case True
    then show ?thesis using run by (simp add: uploadBatch_def sortById_def)
  next
    case False
    then have loop: "uploadLoop um rc (length downloadedData = 1) 0 q [] 0 d = (q', rs', c', d')"
      and s: "sortedData = srt"
      using run mode by (auto simp add: uploadBatch_def Let_def q_def srt_def)
    from uploadLoop_log [OF qu qr refl _ _ loop]
    have "length q' = length q" "map message q' = map message q"
      "\<forall>j<length q. 0 \<le> j \<longrightarrow> uploadStarted (q' ! j) \<and> uploadCompleted (q' ! j)"
      "map snd rs' = map snd [] @ [0..<length q]"
      "onlyThrows um rc \<longrightarrow> map fst rs' = map fst [] @ replicate (length q - 0) False"
      "\<exists>es. events d' = events d @ es \<and> queueLog (drop 0 (map (\<lambda>e. msgId (message e)) q)) es"
      by simp_all
    then show ?thesis using s lq mq iq by (simp add: srt_def ids_sortById)
  qed
  show "sortedData = sortById downloadedData \<or> downloadedData = []"
    and "length q' = length downloadedData"
    and "map message q' = map message (sortById downloadedData)"
    and "\<forall>j<length q'. uploadStarted (q' ! j) \<and> uploadCompleted (q' ! j)"
    and "map snd rs' = [0..<length downloadedData]"
    and "onlyThrows um rc \<longrightarrow> map fst rs' = replicate (length downloadedData) False"
    and "\<exists>es. events d' = events d @ es
           \<and> queueLog (sort (map (\<lambda>x. msgId (message x)) downloadedData)) es"
    using all by blast+
qed

text \<open>
  Claim C1. In upload mode, for every batch handed to \<^verbatim>\<open>uploadBatch\<close>, in whatever
  order the downloads delivered its records and whatever \<^verbatim>\<open>uploadMessage\<close> and the
  reconnection do, the log of the run is, record by record in ascending order of message
  id: the start mark of the record, attempts and \<^verbatim>\<open>uploadMessage\<close> calls for that
  record only, its completion mark. So the sequence of upload starts is the sorted list of
  the batch's ids (strictly ascending when the ids are distinct, as ids of one channel
  are), each start follows the completion mark of the record before it, and the calls of
  \<^verbatim>\<open>uploadMessage\<close> are ascending by id as well.
\<close>

theorem upload_starts_ascending:
  assumes "quietUploader um" and "keepsEvents rc" and "uploadMode d"
    and "uploadBatch um rc downloadedData d = (sortedData, q', rs', c', d')"
  shows "\<exists>es. events d' = events d @ es
           \<and> queueLog (sort (map (\<lambda>x. msgId (message x)) downloadedData)) es
           \<and> startedIds es = sort (map (\<lambda>x. msgId (message x)) downloadedData)
           \<and> filter isQueueMark es
               = concat (map (\<lambda>i. [UploadStarted i, UploadCompleted i]) (startedIds es))
           \<and> sorted (callIds es)
           \<and> (distinct (map (\<lambda>x. msgId (message x)) downloadedData)
                \<longrightarrow> sorted_wrt (<) (startedIds es))"
proof -
  let ?ids = "sort (map (\<lambda>x. msgId (message x)) downloadedData)"
  from uploadBatch_log(7) [OF assms] obtain es where
    e: "events d' = events d @ es" and q: "queueLog ?ids es" by blast
  have s: "startedIds es = ?ids" using q by (rule queueLog_started)
  have m: "filter isQueueMark es
             = concat (map (\<lambda>i. [UploadStarted i, UploadCompleted i]) (startedIds es))"
    using queueLog_marks(1) [OF q] s by simp
  have c: "sorted (callIds es)" using queueLog_calls(1) [OF q] by simp
  have "sorted_wrt (<) (startedIds es)"
    if "distinct (map (\<lambda>x. msgId (message x)) downloadedData)"
    using that s by (simp add: strict_sorted_iff)
  then show ?thesis using e q s m c by blast
qed

theorem upload_starts_ascending_witness:
  "\<exists>es. events (finalState (uploadBatch failingUploader noReconnect sampleBatch
                  (freshDownloader\<lparr>uploadMode := True\<rparr>))) = es
         \<and> startedIds es = [3, 5, 7] \<and> sorted_wrt (<) (startedIds es)
         \<and> filter isQueueMark es
              = [UploadStarted 3, UploadCompleted 3, UploadStarted 5, UploadCompleted 5,
                 UploadStarted 7, UploadCompleted 7]"
proof -
  let ?d = "freshDownloader\<lparr>uploadMode := True\<rparr>"
  obtain sortedData q' rs' c' d' where
    run: "uploadBatch failingUploader noReconnect sampleBatch ?d = (sortedData, q', rs', c', d')"
    by (cases "uploadBatch failingUploader noReconnect sampleBatch ?d") auto
  have qu: "quietUploader failingUploader"
    by (simp add: quietUploader_def keepsEvents_def failingUploader_def)
  have qr: "keepsEvents noReconnect" by (simp add: keepsEvents_def noReconnect_def)
  have mode: "uploadMode ?d" by simp
  have ids: "sort (map (\<lambda>x. msgId (message x)) sampleBatch) = [3, 5, 7]"
    by (simp add: sampleBatch_def textRecord_def)
  have e0: "events ?d = []" by (simp add: freshDownloader_def)
  from upload_starts_ascending [OF qu qr mode run]
  show ?thesis
    by (auto simp add: run finalState_def ids e0)
qed


text \<open>
  The queue goes on whatever the uploads do (\<^verbatim>\<open>uploadMessage\<close> may throw or
  return anything at any call): every record of the queue ends with
  \<^verbatim>\<open>uploadStarted\<close> and \<^verbatim>\<open>uploadCompleted\<close> set and exactly one result is
  pushed per record, in queue order. A record is pushed as failed when the call throws; the
  timeout of the wait for the previous record is never reached, since each turn leaves its
  record completed before the next turn begins.
\<close>

lemma uploadBatch_continues:
  assumes "quietUploader um" and "keepsEvents rc" and "uploadMode d"
    and "uploadBatch um rc downloadedData d = (sortedData, q', rs', c', d')"
  shows "length q' = length downloadedData
         \<and> map message q' = map message (sortById downloadedData)
         \<and> (\<forall>j<length q'. uploadStarted (q' ! j) \<and> uploadCompleted (q' ! j))
         \<and> map snd rs' = [0..<length downloadedData]
         \<and> (onlyThrows um rc \<longrightarrow> map fst rs' = replicate (length downloadedData) False)"
  using uploadBatch_log(2-6) [OF assms] by blast

text \<open>
  \<^verbatim>\<open>uploadMessage\<close> itself never throws: its handler turns every error of the
  request into the result \<^verbatim>\<open>false\<close>. With such an uploader every turn of the queue
  takes the success path.
\<close>

lemma uploadAttempts_returns:
  "\<exists>r d'. uploadAttempts send limit msg filePath single attempt d = (Returned r, d')"
proof (induction send limit msg filePath single attempt d rule: uploadAttempts.induct)
  case (1 send limit msg filePath single attempt d)
  show ?case
  proof (cases "attempt < uploadRetries single")
    case False
    then show ?thesis by (subst uploadAttempts.simps) auto
  next
    case True
    obtain res d1 where t: "uploadTry send limit msg filePath single d = (res, d1)"
      by (cases "uploadTry send limit msg filePath single d")
    show ?thesis
    proof (cases res)
      case (Returned r)
      then show ?thesis using True t by (subst uploadAttempts.simps) auto
    next
      case (Threw error)
      note ih = "1.IH" [OF True t [unfolded Threw, symmetric] refl]
      show ?thesis
        using True t Threw ih
        by (subst uploadAttempts.simps) (auto split: prod.splits outcome.splits)
    qed
  qed
qed

lemma neverThrows_uploadMessage: "neverThrows (uploadMessage send limit)"
  unfolding neverThrows_def uploadMessage_def by (intro allI uploadAttempts_returns)

lemma uploadMessage_refused:
  "uploadMessage forwardsRestricted noRateLimit msg filePath single d = (Returned False, d)"
proof (cases "\<not> uploadMode d \<or> \<not> truthyChannel (targetChannelId d)")
  case True
  then have "uploadTry forwardsRestricted noRateLimit msg filePath single d = (Returned False, d)"
    by (simp add: uploadTry_def)
  then show ?thesis
    unfolding uploadMessage_def
    by (subst uploadAttempts.simps) (simp add: uploadRetries_def)
next
  case False
  then have "uploadTry forwardsRestricted noRateLimit msg filePath single d
             = (Threw ''CHAT_FORWARDS_RESTRICTED'', d)"
    by (simp add: uploadTry_def forwardsRestricted_def noRateLimit_def)
  moreover have "str_includes ''CHAT_FORWARDS_RESTRICTED'' ''CHAT_FORWARDS_RESTRICTED''"
    by code_simp
  ultimately show ?thesis
    unfolding uploadMessage_def
    by (subst uploadAttempts.simps) (simp add: uploadRetries_def)
qed


lemma uploadOperation_returns:
  assumes "neverThrows um"
  shows "\<exists>d1. uploadOperation um rc single cur d = (Returned (), d1)"
proof -
  from assms obtain r d1 where
    "um (message cur) (if truthyPath (mediaPath cur) then mediaPath cur else None) single
        (d\<lparr>events := events d @ [UploadCall (msgId (message cur))]\<rparr>) = (Returned r, d1)"
    unfolding neverThrows_def by blast
  then show ?thesis by (simp add: uploadOperation_def)
qed

lemma uploadTurn_success:
  assumes nt: "neverThrows um"
    and prev: "i = 0 \<or> uploadCompleted (q ! (i - 1))"
    and r: "uploadTurn um rc single q i d = (cur', success, toEnd, d1)"
  shows "success \<and> toEnd \<and> uploadCompleted cur'"
proof -
  define verified where "verified =
     (if truthyPath (mediaPath (q ! i)) \<and> \<not> existsSync (the (mediaPath (q ! i))) d
      then (q ! i)\<lparr>mediaPath := None\<rparr> else q ! i)"
  define started where "started = verified\<lparr>uploadStarted := True\<rparr>"
  define d0 where "d0 = d\<lparr>events := events d @ [UploadStarted (msgId (message (q ! i)))]\<rparr>"
  have w: "waitForPrevious q i d = (Returned (), d)"
    using prev by (auto simp add: waitForPrevious_def)
  obtain d2 where op: "uploadOperation um rc single started
                         (d0\<lparr>events := events d0 @ [Attempt 1]\<rparr>) = (Returned (), d2)"
    using uploadOperation_returns [OF nt] by blast
  have ro: "retryOperation (uploadOperation um rc single started) 5 d0
            = (Returned (Some ()), d2)"
    unfolding retryOperation_def
    using retryFrom_success [of 1 5 "uploadOperation um rc single started" d0 "()" d2] op
    by simp
  have "uploadTurn um rc single q i d = markCompleted started True True d2"
    using ro unfolding started_def verified_def d0_def
    by (simp add: uploadTurn_def w Let_def)
  then show ?thesis using r by (simp add: markCompleted_def)
qed

lemma uploadLoop_success:
  assumes nt: "neverThrows um"
  shows "n = length q - i \<Longrightarrow> i \<le> length q \<Longrightarrow> (\<forall>j<i. uploadCompleted (q ! j)) \<Longrightarrow>
    uploadLoop um rc single i q rs c d = (q', rs', c', d') \<Longrightarrow>
    rs' = rs @ map (\<lambda>j. (True, j)) [i..<length q] \<and> c' = c + (length q - i)"
proof (induction n arbitrary: i q rs c d)
  case 0
  then have "i = length q" by simp
  then have "uploadLoop um rc single i q rs c d = (q, rs, c, d)"
    by (subst uploadLoop.simps) simp
  then show ?case using 0 by auto
next
  case (Suc n)
  then have lt: "i < length q" by simp
  obtain cur' success toEnd d1 where
    t: "uploadTurn um rc single q i d = (cur', success, toEnd, d1)"
    by (cases "uploadTurn um rc single q i d") auto
  have prev: "i = 0 \<or> uploadCompleted (q ! (i - 1))"
    using Suc.prems(3) by (cases i) simp_all
  from uploadTurn_success [OF nt prev t]
  have ok: "success" "toEnd" "uploadCompleted cur'" by simp_all
  define q2 where "q2 = signalNext i (q[i := cur'])"
  define d2 where "d2 = (if i + 1 < length q
            then precisionDelay (if single then 100 else 500) d1 else d1)"
  have len2: "length q2 = length q" by (simp add: q2_def)
  have nth2: "q2 ! j = (if j = i then cur' else q ! j)" if "j < i + 1" for j
    using that lt by (simp add: q2_def signalNext_nth nth_list_update)
  have comp2: "\<forall>j<i + 1. uploadCompleted (q2 ! j)"
    using Suc.prems(3) ok(3) by (auto simp add: nth2 less_Suc_eq)
  have loop: "uploadLoop um rc single (i + 1) q2 (rs @ [(True, i)]) (c + 1) d2
              = (q', rs', c', d')"
    using uploadLoop_step [OF lt t, of rs c] Suc.prems(4) ok by (simp add: q2_def d2_def)
  have n: "n = length q2 - (i + 1)" and le: "i + 1 \<le> length q2"
    using Suc.prems(1) lt by (simp_all add: len2)
  from Suc.IH [OF n le comp2 loop]
  have "rs' = (rs @ [(True, i)]) @ map (\<lambda>j. (True, j)) [i + 1..<length q]"
    and "c' = c + 1 + (length q - (i + 1))"
    by (simp_all add: len2)
  then show ?case using lt by (simp add: upt_conv_Cons)
qed

lemma uploadBatch_success:
  assumes nt: "neverThrows um" and mode: "uploadMode d"
  shows "finalResults (uploadBatch um rc downloadedData d)
         = map (\<lambda>j. (True, j)) [0..<length downloadedData]"
    and "completedCount (uploadBatch um rc downloadedData d) = length downloadedData"
proof -
  define srt where "srt = sortById downloadedData"
  define q where "q = map (\<lambda>(data, index). enqueue data index) (zip srt [0..<length srt])"
  have lq: "length q = length downloadedData" by (simp add: q_def srt_def sortById_def)
  have both: "finalResults (uploadBatch um rc downloadedData d)
                = map (\<lambda>j. (True, j)) [0..<length downloadedData]
              \<and> completedCount (uploadBatch um rc downloadedData d) = length downloadedData"
  proof (cases "downloadedData = []")
    case True
    then show ?thesis by (simp add: uploadBatch_def finalResults_def completedCount_def)
  next
    case False
    obtain q' rs' c' d' where
      loop: "uploadLoop um rc (length downloadedData = 1) 0 q [] 0 d = (q', rs', c', d')"
      by (cases "uploadLoop um rc (length downloadedData = 1) 0 q [] 0 d") auto
    have run: "uploadBatch um rc downloadedData d = (srt, q', rs', c', d')"
      using False mode loop by (simp add: uploadBatch_def Let_def q_def srt_def)
    from uploadLoop_success [OF nt refl _ _ loop]
    have "rs' = map (\<lambda>j. (True, j)) [0..<length q]" and "c' = length q" by simp_all
    then show ?thesis by (simp add: run finalResults_def completedCount_def lq)
  qed
  from both show "finalResults (uploadBatch um rc downloadedData d)
         = map (\<lambda>j. (True, j)) [0..<length downloadedData]" by (rule conjunct1)
  from both show "completedCount (uploadBatch um rc downloadedData d) = length downloadedData"
    by (rule conjunct2)
qed

text \<open>
  Claim C7 at a batch of three text records whose delivery fails: upload mode with the
  target channel 9, which refuses every message with \<^verbatim>\<open>CHAT_FORWARDS_RESTRICTED\<close>.
  \<^verbatim>\<open>uploadMessage\<close> catches the error and returns \<^verbatim>\<open>false\<close> (line 798); the
  closure that \<^verbatim>\<open>uploadBatch\<close> hands to \<^verbatim>\<open>retryOperation\<close> (lines 1094 to
  1122) does not read what it returns, so every record is pushed to
  \<^verbatim>\<open>uploadResults\<close> with \<^verbatim>\<open>success: true\<close> and counted in
  \<^verbatim>\<open>completedUploads\<close>: no record is marked as failed, and the handler under the
  comment \<^verbatim>\<open>Mark as failed but continue sequence\<close> is not reached. The queue does go
  on: the three records are started and completed in id order.
\<close>

theorem failed_upload_pushed_as_success:
  "uploadMessage forwardsRestricted noRateLimit (message (textRecord 3)) None False uploadingTo9
     = (Returned False, uploadingTo9)
   \<and> finalResults (uploadBatch (uploadMessage forwardsRestricted noRateLimit) noReconnect
                      sampleBatch uploadingTo9)
     = [(True, 0), (True, 1), (True, 2)]
   \<and> completedCount (uploadBatch (uploadMessage forwardsRestricted noRateLimit) noReconnect
                        sampleBatch uploadingTo9) = 3
   \<and> map (\<lambda>e. (msgId (message e), uploadStarted e, uploadCompleted e))
         (finalQueue (uploadBatch (uploadMessage forwardsRestricted noRateLimit) noReconnect
                        sampleBatch uploadingTo9))
     = [(3, True, True), (5, True, True), (7, True, True)]"
proof -
  let ?um = "uploadMessage forwardsRestricted noRateLimit"
  have mode: "uploadMode uploadingTo9" by (simp add: uploadingTo9_def)
  have len3: "length sampleBatch = 3" by (simp add: sampleBatch_def)
  have upt3: "[0..<3] = [0 :: nat, 1, 2]" by code_simp
  have results: "finalResults (uploadBatch ?um noReconnect sampleBatch uploadingTo9)
                   = [(True, 0), (True, 1), (True, 2)]"
    and count: "completedCount (uploadBatch ?um noReconnect sampleBatch uploadingTo9) = 3"
    using uploadBatch_success [OF neverThrows_uploadMessage mode,
        of forwardsRestricted noRateLimit noReconnect sampleBatch]
    by (simp_all add: upt3 len3)
  obtain sortedData q' rs' c' d' where
    run: "uploadBatch ?um noReconnect sampleBatch uploadingTo9 = (sortedData, q', rs', c', d')"
    by (cases "uploadBatch ?um noReconnect sampleBatch uploadingTo9") auto
  have qu: "quietUploader ?um"
    by (simp add: quietUploader_def keepsEvents_def uploadMessage_refused)
  have qr: "keepsEvents noReconnect" by (simp add: keepsEvents_def noReconnect_def)
  have srt: "map (\<lambda>x. msgId (message x)) (sortById sampleBatch) = [3, 5, 7]"
    by (simp add: ids_sortById sampleBatch_def textRecord_def)
  from uploadBatch_continues [OF qu qr mode run]
  have len: "length q' = 3" and msg: "map message q' = map message (sortById sampleBatch)"
    and flags: "\<forall>j<length q'. uploadStarted (q' ! j) \<and> uploadCompleted (q' ! j)"
    by (simp_all add: sampleBatch_def)
  have "map (\<lambda>e. msgId (message e)) q' = map msgId (map message q')" by simp
  also have "\<dots> = [3, 5, 7]" using srt by (simp add: msg comp_def)
  finally have ids: "map (\<lambda>e. msgId (message e)) q' = [3, 5, 7]" .
  have f: "map (\<lambda>e. (uploadStarted e, uploadCompleted e)) q' = replicate 3 (True, True)"
    using flags len by (intro nth_equalityI) simp_all
  have "map (\<lambda>e. (msgId (message e), uploadStarted e, uploadCompleted e)) q'
        = zip (map (\<lambda>e. msgId (message e)) q') (map (\<lambda>e. (uploadStarted e, uploadCompleted e)) q')"
    by (simp add: zip_map_map zip_same_conv_map)
  then have "map (\<lambda>e. (msgId (message e), uploadStarted e, uploadCompleted e)) q'
        = [(3, True, True), (5, True, True), (7, True, True)]"
    by (simp add: ids f numeral_3_eq_3)
  then have queue: "map (\<lambda>e. (msgId (message e), uploadStarted e, uploadCompleted e))
         (finalQueue (uploadBatch ?um noReconnect sampleBatch uploadingTo9))
       = [(3, True, True), (5, True, True), (7, True, True)]"
    by (simp add: run finalQueue_def)
  show ?thesis using results count queue by (simp add: uploadMessage_refused)
qed

theorem failed_upload_pushed_as_success_witness:
  "uploadMode uploadingTo9 \<and> truthyChannel (targetChannelId uploadingTo9)
   \<and> sampleBatch \<noteq> []
   \<and> map fst (finalResults (uploadBatch (uploadMessage forwardsRestricted noRateLimit)
                               noReconnect sampleBatch uploadingTo9))
     = [True, True, True]"
  using failed_upload_pushed_as_success
  by (simp add: uploadingTo9_def truthyChannel_def sampleBatch_def)

section \<open>Properties of batch recovery\<close>

lemma msgId_textMessage [simp]: "msgId (textMessage i) = i"
  by (simp add: textMessage_def)

lemma processBatch_never_throws:
  "processBatch fuel runBatch getMessageDetail ensureHealth messages d \<noteq> Some (Threw e, d')"
proof (induction fuel arbitrary: messages d)
  case 0
  then show ?case by (simp add: processBatch.simps)
next
  case (Suc fuel)
  show ?case
    by (auto simp add: processBatch.simps refreshMessagesBatch_def
        split: prod.splits outcome.splits option.splits)
qed

lemma processBatch_success:
  assumes "runBatch messages (d\<lparr>batchCounter := batchCounter d + 1\<rparr>) = (Returned u, d1)"
  shows "processBatch (Suc fuel) runBatch getMessageDetail ensureHealth messages d
         = Some (Returned (), d1)"
  using assms by (simp add: processBatch.simps)

lemma processBatch_rerun:
  assumes "runBatch messages (d\<lparr>batchCounter := batchCounter d + 1\<rparr>) = (Threw error, d1)"
    and "getMessageDetail (map msgId messages) d1 = (Returned retryMessages, d2)"
    and "retryMessages \<noteq> []"
    and "ensureHealth d2 = (Returned u, d3)"
  shows "processBatch (Suc fuel) runBatch getMessageDetail ensureHealth messages d
         = processBatch fuel runBatch getMessageDetail ensureHealth retryMessages d3"
proof (cases "processBatch fuel runBatch getMessageDetail ensureHealth retryMessages d3")
  case None
  then show ?thesis using assms by (simp add: processBatch.simps refreshMessagesBatch_def)
next
  case (Some r)
  obtain res d4 where r: "r = (res, d4)" by (cases r)
  have "res = Returned ()"
    using processBatch_never_throws [of fuel runBatch getMessageDetail ensureHealth
        retryMessages d3 _ d4] Some r
    by (cases res) auto
  then show ?thesis
    using assms Some r by (simp add: processBatch.simps refreshMessagesBatch_def)
qed

lemma processBatch_gives_up:
  assumes "runBatch messages (d\<lparr>batchCounter := batchCounter d + 1\<rparr>) = (Threw error, d1)"
    and "getMessageDetail (map msgId messages) d1 = (Threw e2, d2)
         \<or> getMessageDetail (map msgId messages) d1 = (Returned [], d2)
         \<or> (\<exists>ms d'. getMessageDetail (map msgId messages) d1 = (Returned ms, d') \<and> ms \<noteq> []
                \<and> (\<exists>e3. ensureHealth d' = (Threw e3, d2)))"
  shows "processBatch (Suc fuel) runBatch getMessageDetail ensureHealth messages d
         = Some (Returned (), d2)"
  using assms by (auto simp add: processBatch.simps refreshMessagesBatch_def)

text \<open>
  Claim C5, as the code has it. When the batch body throws, \<^verbatim>\<open>processBatch\<close>
  re-fetches the descriptors of the batch; if the re-fetch returns a non-empty list and the
  connection check passes, it runs \<^verbatim>\<open>processBatch\<close> again on the fresh descriptors,
  with the same recovery should that run fail too, so the number of re-fetches is not
  bounded by one; if the re-fetch fails or returns nothing, or the connection check throws,
  it gives up. Whatever happens, the error is logged and not thrown on: a call that returns
  returns normally, and a body that succeeds makes the call return at once.
\<close>

theorem batch_recovery:
  "processBatch fuel runBatch getMessageDetail ensureHealth messages d \<noteq> Some (Threw e, d')
   \<and> (runBatch messages (d\<lparr>batchCounter := batchCounter d + 1\<rparr>) = (Returned u, d1)
        \<longrightarrow> processBatch (Suc fuel) runBatch getMessageDetail ensureHealth messages d
              = Some (Returned (), d1))
   \<and> (runBatch messages (d\<lparr>batchCounter := batchCounter d + 1\<rparr>) = (Threw error, d1)
        \<and> getMessageDetail (map msgId messages) d1 = (Returned retryMessages, d2)
        \<and> retryMessages \<noteq> [] \<and> ensureHealth d2 = (Returned u, d3)
        \<longrightarrow> processBatch (Suc fuel) runBatch getMessageDetail ensureHealth messages d
              = processBatch fuel runBatch getMessageDetail ensureHealth retryMessages d3)
   \<and> (runBatch messages (d\<lparr>batchCounter := batchCounter d + 1\<rparr>) = (Threw error, d1)
        \<and> (getMessageDetail (map msgId messages) d1 = (Threw e2, d2)
             \<or> getMessageDetail (map msgId messages) d1 = (Returned [], d2))
        \<longrightarrow> processBatch (Suc fuel) runBatch getMessageDetail ensureHealth messages d
              = Some (Returned (), d2))
   \<and> (runBatch messages (d\<lparr>batchCounter := batchCounter d + 1\<rparr>) = (Threw error, d1)
        \<and> getMessageDetail (map msgId messages) d1 = (Returned retryMessages, d2)
        \<and> retryMessages \<noteq> [] \<and> ensureHealth d2 = (Threw e3, d3)
        \<longrightarrow> processBatch (Suc fuel) runBatch getMessageDetail ensureHealth messages d
              = Some (Returned (), d3))"
proof (intro conjI impI)
  show "processBatch fuel runBatch getMessageDetail ensureHealth messages d
        \<noteq> Some (Threw e, d')"
    by (rule processBatch_never_throws)
next
  assume "runBatch messages (d\<lparr>batchCounter := batchCounter d + 1\<rparr>) = (Returned u, d1)"
  then show "processBatch (Suc fuel) runBatch getMessageDetail ensureHealth messages d
             = Some (Returned (), d1)"
    by (rule processBatch_success)
next
  assume a: "runBatch messages (d\<lparr>batchCounter := batchCounter d + 1\<rparr>) = (Threw error, d1)
        \<and> getMessageDetail (map msgId messages) d1 = (Returned retryMessages, d2)
        \<and> retryMessages \<noteq> [] \<and> ensureHealth d2 = (Returned u, d3)"
  show "processBatch (Suc fuel) runBatch getMessageDetail ensureHealth messages d
        = processBatch fuel runBatch getMessageDetail ensureHealth retryMessages d3"
    by (rule processBatch_rerun [of runBatch messages d error d1 getMessageDetail
          retryMessages d2 ensureHealth u d3]) (insert a, simp_all)
next
  assume a: "runBatch messages (d\<lparr>batchCounter := batchCounter d + 1\<rparr>) = (Threw error, d1)
        \<and> (getMessageDetail (map msgId messages) d1 = (Threw e2, d2)
             \<or> getMessageDetail (map msgId messages) d1 = (Returned [], d2))"
  from a have a1: "runBatch messages (d\<lparr>batchCounter := batchCounter d + 1\<rparr>)
                   = (Threw error, d1)"
    and a2: "getMessageDetail (map msgId messages) d1 = (Threw e2, d2)
         \<or> getMessageDetail (map msgId messages) d1 = (Returned [], d2)
         \<or> (\<exists>ms d'. getMessageDetail (map msgId messages) d1 = (Returned ms, d') \<and> ms \<noteq> []
                \<and> (\<exists>e3. ensureHealth d' = (Threw e3, d2)))"
    by blast+
  show "processBatch (Suc fuel) runBatch getMessageDetail ensureHealth messages d
        = Some (Returned (), d2)"
    by (rule processBatch_gives_up [of runBatch messages d error d1 getMessageDetail e2 d2
          ensureHealth, OF a1 a2])
next
  assume a: "runBatch messages (d\<lparr>batchCounter := batchCounter d + 1\<rparr>) = (Threw error, d1)
        \<and> getMessageDetail (map msgId messages) d1 = (Returned retryMessages, d2)
        \<and> retryMessages \<noteq> [] \<and> ensureHealth d2 = (Threw e3, d3)"
  from a have a1: "runBatch messages (d\<lparr>batchCounter := batchCounter d + 1\<rparr>)
                   = (Threw error, d1)"
    and a2: "getMessageDetail (map msgId messages) d1 = (Returned retryMessages, d2)"
    and a3: "retryMessages \<noteq> []" and a4: "ensureHealth d2 = (Threw e3, d3)"
    by blast+
  show "processBatch (Suc fuel) runBatch getMessageDetail ensureHealth messages d
        = Some (Returned (), d3)"
    using a1 a2 a3 a4 by (simp add: processBatch.simps refreshMessagesBatch_def)
qed

theorem batch_recovery_witness:
  "processBatch 2 failsOnce freshDetails healthy [textMessage 4, textMessage 6] freshDownloader
     = Some (Returned (), freshDownloader\<lparr>batchCounter := 2\<rparr>)
   \<and> processBatch 1 alwaysFails noDetails healthy [textMessage 4, textMessage 6]
        freshDownloader
     = Some (Returned (), freshDownloader\<lparr>batchCounter := 1\<rparr>)
   \<and> processBatch 1 alwaysFails freshDetails unhealthy [textMessage 4, textMessage 6]
        freshDownloader
     = Some (Returned (), freshDownloader\<lparr>batchCounter := 1\<rparr>)"
proof -
  let ?ms = "[textMessage 4, textMessage 6]"
  let ?d1 = "freshDownloader\<lparr>batchCounter := 1\<rparr>"
  let ?d2 = "freshDownloader\<lparr>batchCounter := 2\<rparr>"
  have b0: "batchCounter freshDownloader = 0" by (simp add: freshDownloader_def)
  have first: "failsOnce ?ms (freshDownloader\<lparr>batchCounter := batchCounter freshDownloader + 1\<rparr>)
               = (Threw ''Connection closed'', ?d1)"
    by (simp add: failsOnce_def b0)
  have again: "failsOnce ?ms (?d1\<lparr>batchCounter := batchCounter ?d1 + 1\<rparr>)
               = (Returned (), ?d2)"
    by (simp add: failsOnce_def)
  have always: "alwaysFails ?ms (freshDownloader\<lparr>batchCounter := batchCounter freshDownloader + 1\<rparr>)
                = (Threw ''Connection closed'', ?d1)"
    by (simp add: alwaysFails_def b0)
  have fresh: "freshDetails (map msgId ?ms) ?d1 = (Returned ?ms, ?d1)"
    by (simp add: freshDetails_def)
  have none: "noDetails (map msgId ?ms) ?d1
              = (Threw ''Failed to get message details: timeout'', ?d1)"
    by (simp add: noDetails_def)
  have ok: "healthy ?d1 = (Returned (), ?d1)" by (simp add: healthy_def)
  have bad: "unhealthy ?d1 = (Threw ''Connection health check failed'', ?d1)"
    by (simp add: unhealthy_def)
  note rerun = batch_recovery [of 1 failsOnce freshDetails healthy ?ms freshDownloader
      "''none''" freshDownloader "()" ?d1 "''Connection closed''" ?ms ?d1 ?d1
      "''none''" "''none''"]
  note succeed = batch_recovery [of 0 failsOnce freshDetails healthy ?ms ?d1
      "''none''" freshDownloader "()" ?d2 "''none''" ?ms ?d2 ?d2
      "''none''" "''none''"]
  note refetch = batch_recovery [of 0 alwaysFails noDetails healthy ?ms freshDownloader
      "''none''" freshDownloader "()" ?d1 "''Connection closed''" ?ms ?d1 ?d1
      "''Failed to get message details: timeout''" "''none''"]
  note check = batch_recovery [of 0 alwaysFails freshDetails unhealthy ?ms freshDownloader
      "''none''" freshDownloader "()" ?d1 "''Connection closed''" ?ms ?d1 ?d1
      "''none''" "''Connection health check failed''"]
  have s1: "processBatch (Suc 1) failsOnce freshDetails healthy ?ms freshDownloader
            = processBatch 1 failsOnce freshDetails healthy ?ms ?d1"
    using rerun first fresh ok by (elim conjE) (simp only: simp_thms list.simps)
  have s2: "processBatch (Suc 0) failsOnce freshDetails healthy ?ms ?d1
            = Some (Returned (), ?d2)"
    using succeed again by (elim conjE) (simp only: simp_thms)
  have c1: "processBatch 2 failsOnce freshDetails healthy ?ms freshDownloader
            = Some (Returned (), ?d2)"
    using s1 s2 by (simp add: numeral_2_eq_2)
  have c2: "processBatch (Suc 0) alwaysFails noDetails healthy ?ms freshDownloader
            = Some (Returned (), ?d1)"
    using refetch always none by (elim conjE) (simp only: simp_thms)
  have c3: "processBatch (Suc 0) alwaysFails freshDetails unhealthy ?ms freshDownloader
            = Some (Returned (), ?d1)"
    using check always fresh bad by (elim conjE) (simp only: simp_thms list.simps)
  show ?thesis using c1 c2 c3 by simp
qed

text \<open>
  The claim C5 as the specification words it fails on the code. With a body that fails in
  its first two runs, \<^verbatim>\<open>processBatch\<close> runs the batch three times (two re-fetches, not
  one) and succeeds; with a body that always fails and a re-fetch that fails,
  \<^verbatim>\<open>processBatch\<close> returns normally: the error does not reach the caller.
\<close>

theorem batch_recovery_counterexample:
  "processBatch 3 failsTwice freshDetails healthy [textMessage 1, textMessage 2] freshDownloader
     = Some (Returned (), freshDownloader\<lparr>batchCounter := 3\<rparr>)
   \<and> processBatch 1 alwaysFails noDetails healthy [textMessage 1, textMessage 2]
        freshDownloader
     = Some (Returned (), freshDownloader\<lparr>batchCounter := 1\<rparr>)"
proof -
  let ?ms = "[textMessage 1, textMessage 2]"
  let ?d = "\<lambda>n. freshDownloader\<lparr>batchCounter := n\<rparr>"
  have b0: "batchCounter freshDownloader = 0" by (simp add: freshDownloader_def)
  have g: "freshDetails [1, 2] d = (Returned ?ms, d)" for d
    by (simp add: freshDetails_def)
  have h: "healthy d = (Returned (), d)" for d by (simp add: healthy_def)
  have s1: "processBatch (Suc 2) failsTwice freshDetails healthy ?ms freshDownloader
            = processBatch 2 failsTwice freshDetails healthy ?ms (?d 1)"
    by (rule processBatch_rerun [where error = "''Connection closed''" and ?d1.0 = "?d 1"
          and ?d2.0 = "?d 1" and u = "()"])
       (simp_all add: failsTwice_def b0 g h)
  have s2: "processBatch (Suc 1) failsTwice freshDetails healthy ?ms (?d 1)
            = processBatch 1 failsTwice freshDetails healthy ?ms (?d 2)"
    by (rule processBatch_rerun [where error = "''Connection closed''" and ?d1.0 = "?d 2"
          and ?d2.0 = "?d 2" and u = "()"])
       (simp_all add: failsTwice_def g h)
  have s3: "processBatch (Suc 0) failsTwice freshDetails healthy ?ms (?d 2)
            = Some (Returned (), ?d 3)"
    by (rule processBatch_success [where u = "()"]) (simp add: failsTwice_def)
  have one: "processBatch 3 failsTwice freshDetails healthy ?ms freshDownloader
             = Some (Returned (), ?d 3)"
    using s1 s2 s3 by (simp add: numeral_3_eq_3 numeral_2_eq_2)
  have two: "processBatch (Suc 0) alwaysFails noDetails healthy ?ms freshDownloader
             = Some (Returned (), ?d 1)"
    by (rule processBatch_gives_up [where error = "''Connection closed''" and ?d1.0 = "?d 1"
          and ?e2.0 = "''Failed to get message details: timeout''"])
       (simp_all add: alwaysFails_def noDetails_def b0)
  show ?thesis using one two by simp
qed

section \<open>Properties of media paths\<close>

lemma afterLast_append: "c \<notin> set x \<Longrightarrow> afterLast c (a @ c # x) = x"
proof -
  assume "c \<notin> set x"
  then have "takeWhile (\<lambda>y. y \<noteq> c) (rev x @ c # rev a) = rev x"
    by (subst takeWhile_append2) auto
  then show ?thesis by (simp add: afterLast_def)
qed

lemma digitVal_digitChar: "k < 10 \<Longrightarrow> digitVal (digitChar k) = k"
proof -
  assume "k < 10"
  then have "k \<in> {0, 1, 2, 3, 4, 5, 6, 7, 8, 9}" by auto
  then show ?thesis by (auto simp add: digitVal_def digitChar_def)
qed

lemma digitChar_digit: "k < 10 \<Longrightarrow> digitChar k \<in> set ''0123456789''"
  unfolding digitChar_def by (rule nth_mem) simp

lemma showNat_digits: "set (showNat n) \<subseteq> set ''0123456789''"
proof (induction n rule: showNat.induct)
  case (1 n)
  show ?case
  proof (cases "n < 10")
    case True
    then show ?thesis using digitChar_digit [of n] by (subst showNat.simps) simp
  next
    case False
    then have "set (showNat (n div 10)) \<subseteq> set ''0123456789''" using 1 by simp
    moreover have "digitChar (n mod 10) \<in> set ''0123456789''"
      by (rule digitChar_digit) simp
    ultimately show ?thesis using False by (subst showNat.simps) simp
  qed
qed

lemma showNat_nonempty: "showNat n \<noteq> []"
  by (subst showNat.simps) simp

lemma parseInt_append: "parseInt (xs @ [c]) = 10 * parseInt xs + digitVal c"
  by (simp add: parseInt_def)

lemma parseInt_showNat: "parseInt (showNat n) = n"
proof (induction n rule: showNat.induct)
  case (1 n)
  show ?case
  proof (cases "n < 10")
    case True
    then show ?thesis
      by (subst showNat.simps) (simp add: parseInt_def digitVal_digitChar)
  next
    case False
    then have "parseInt (showNat (n div 10)) = n div 10" using 1 by simp
    then show ?thesis
      using False by (subst showNat.simps) (simp add: parseInt_append digitVal_digitChar)
  qed
qed

lemma showNat_inj: "showNat n = showNat m \<Longrightarrow> n = m"
  by (metis parseInt_showNat)

lemma showInt_chars:
  "CHR ''.'' \<notin> set (showInt i)" "CHR ''_'' \<notin> set (showInt i)" "CHR ''/'' \<notin> set (showInt i)"
  using showNat_digits [of "nat i"] showNat_digits [of "nat (- i)"]
  by (auto simp add: showInt_def)

lemma showInt_nonempty: "showInt i \<noteq> []"
  by (simp add: showInt_def showNat_nonempty)

lemma showInt_inj: "showInt i = showInt j \<Longrightarrow> i = j"
proof -
  assume eq: "showInt i = showInt j"
  have nd: "CHR ''-'' \<notin> set (showNat n)" for n
    using showNat_digits [of n] by auto
  have hd: "hd (showNat n) \<noteq> CHR ''-''" for n
    using nd [of n] showNat_nonempty [of n] by (cases "showNat n") auto
  show ?thesis
  proof (cases "i < 0"; cases "j < 0")
    assume "i < 0" "j < 0"
    then show ?thesis using eq showNat_inj [of "nat (- i)" "nat (- j)"]
      by (simp add: showInt_def)
  next
    assume "i < 0" "\<not> j < 0"
    then show ?thesis using eq hd [of "nat j"] by (simp add: showInt_def) (metis list.sel(1))
  next
    assume "\<not> i < 0" "j < 0"
    then show ?thesis using eq hd [of "nat i"] by (simp add: showInt_def)
  next
    assume "\<not> i < 0" "\<not> j < 0"
    then show ?thesis using eq showNat_inj [of "nat i" "nat j"]
      by (simp add: showInt_def)
  qed
qed


lemma lastSegment_noslash: "CHR ''/'' \<notin> set (lastSegment p)"
  using set_takeWhileD [of "CHR ''/''" "\<lambda>c. c \<noteq> CHR ''/''"]
  by (auto simp add: lastSegment_def)

lemma lastSegment_append:
  assumes "CHR ''/'' \<notin> set u" and "u \<noteq> []" and "X = [] \<or> last X = CHR ''/''"
  shows "lastSegment (X @ u) = u"
proof -
  have h: "hd (rev u) \<noteq> CHR ''/''"
    using assms(1,2) by (metis hd_rev last_in_set)
  have d: "dropWhile (\<lambda>c. c = CHR ''/'') (rev u @ rev X) = rev u @ rev X"
    using h assms(2) by (cases "rev u") auto
  have "takeWhile (\<lambda>c. c \<noteq> CHR ''/'') (rev X) = []"
    using assms(3) by (cases "rev X") (auto simp add: last_rev [symmetric] hd_rev)
  then have t: "takeWhile (\<lambda>c. c \<noteq> CHR ''/'') (rev u @ rev X) = rev u"
    using assms(1) by (subst takeWhile_append2) auto
  show ?thesis by (simp add: lastSegment_def d t)
qed

lemma lastSegment_id: "CHR ''/'' \<notin> set u \<Longrightarrow> lastSegment u = u"
proof (cases "u = []")
  case True
  then show ?thesis by (simp add: lastSegment_def)
next
  case False
  assume "CHR ''/'' \<notin> set u"
  then show ?thesis using lastSegment_append [of u "[]"] False by simp
qed

lemma split_at_last:
  assumes "c \<in> set s"
  shows "s = take (length s - length (afterLast c s) - 1) s @ c # afterLast c s"
    and "c \<notin> set (afterLast c s)"
proof -
  from split_list_last [OF assms] obtain ys zs where s: "s = ys @ c # zs" and n: "c \<notin> set zs"
    by blast
  have a: "afterLast c s = zs" using afterLast_append [OF n] s by simp
  show "c \<notin> set (afterLast c s)" using a n by simp
  show "s = take (length s - length (afterLast c s) - 1) s @ c # afterLast c s"
    using a s by simp
qed

lemma extname_unfold:
  "extname p =
     (if CHR ''.'' \<notin> set (lastSegment p)
         \<or> take (length (lastSegment p) - length (afterLast CHR ''.'' (lastSegment p)) - 1)
              (lastSegment p) = []
         \<or> lastSegment p = ''..'' then []
      else CHR ''.'' # afterLast CHR ''.'' (lastSegment p))"
  by (simp add: extname_def afterLast_def Let_def)

lemma extname_shape:
  "extname p = [] \<or>
   (\<exists>t. extname p = CHR ''.'' # t \<and> CHR ''.'' \<notin> set t \<and> CHR ''/'' \<notin> set t)"
proof (cases "extname p = []")
  case True
  then show ?thesis by simp
next
  case False
  let ?seg = "lastSegment p"
  from False have dot: "CHR ''.'' \<in> set ?seg"
    and e: "extname p = CHR ''.'' # afterLast CHR ''.'' ?seg"
    by (auto simp add: extname_unfold split: if_splits)
  have "CHR ''.'' \<notin> set (afterLast CHR ''.'' ?seg)" using split_at_last(2) [OF dot] .
  moreover have "set (afterLast CHR ''.'' ?seg) \<subseteq> set ?seg"
    using split_at_last(1) [OF dot] by (metis set_append set_subset_Cons sup.coboundedI2)
  then have "CHR ''/'' \<notin> set (afterLast CHR ''.'' ?seg)"
    using lastSegment_noslash [of p] by blast
  ultimately show ?thesis using e by blast
qed

lemma basename_extname: "basename p (extname p) @ extname p = lastSegment p"
proof (cases "extname p = []")
  case True
  then show ?thesis by (simp add: basename_def)
next
  case False
  let ?seg = "lastSegment p"
  let ?front = "take (length ?seg - length (afterLast CHR ''.'' ?seg) - 1) ?seg"
  from False have dot: "CHR ''.'' \<in> set ?seg" and f: "?front \<noteq> []"
    and e: "extname p = CHR ''.'' # afterLast CHR ''.'' ?seg"
    by (auto simp add: extname_unfold split: if_splits)
  have seg: "?seg = ?front @ extname p" using split_at_last(1) [OF dot] e by simp
  then have suf: "suffix (extname p) ?seg" by (metis suffixI)
  have ne: "extname p \<noteq> ?seg" using seg f by (metis self_append_conv2 same_append_eq append_self_conv2)
  have len: "length ?seg \<le> length p"
    by (simp add: lastSegment_def)
       (metis length_rev length_takeWhile_le length_dropWhile_le le_trans)
  have lp: "length (extname p) \<le> length p"
    using len seg by (metis le_trans length_append le_add2)
  have np: "extname p \<noteq> p"
  proof
    assume eq: "extname p = p"
    have "CHR ''/'' \<notin> set p" using extname_shape [of p] False eq by auto
    then have "lastSegment p = p" by (rule lastSegment_id)
    then show False using ne eq by simp
  qed
  have "basename p (extname p) = take (length ?seg - length (extname p)) ?seg"
    using False lp np suf ne by (simp add: basename_def Let_def)
  also have "\<dots> = ?front" using seg by (metis append_eq_conv_conj length_append add_diff_cancel_right')
  finally show ?thesis using seg by simp
qed

lemma extname_empty:
  assumes "extname p = []"
  shows "(\<forall>a b. lastSegment p = a @ CHR ''.'' # b \<longrightarrow> a = []) \<or> lastSegment p = ''..''"
proof (cases "CHR ''.'' \<in> set (lastSegment p)")
  case False
  then show ?thesis by auto
next
  case True
  let ?seg = "lastSegment p"
  let ?tail = "afterLast CHR ''.'' ?seg"
  let ?front = "take (length ?seg - length ?tail - 1) ?seg"
  from assms True have "?front = [] \<or> ?seg = ''..''"
    by (auto simp add: extname_unfold split: if_splits)
  then show ?thesis
  proof
    assume "?seg = ''..''"
    then show ?thesis by simp
  next
    assume f: "?front = []"
    have seg: "?seg = CHR ''.'' # ?tail"
      using split_at_last(1) [OF True] f by (metis append_Nil)
    have nt: "CHR ''.'' \<notin> set ?tail" using split_at_last(2) [OF True] .
    have "a = []" if "?seg = a @ CHR ''.'' # b" for a b
    proof (cases a)
      case Nil
      then show ?thesis .
    next
      case (Cons x xs)
      then have "?tail = xs @ CHR ''.'' # b"
        using seg that by (metis append_Cons list.inject)
      then show ?thesis using nt by simp
    qed
    then show ?thesis by blast
  qed
qed

lemma dot_in_front:
  assumes eq: "b1 @ CHR ''_'' # I1 = F @ CHR ''.'' # t" and nd: "CHR ''.'' \<notin> set I1"
  shows "\<exists>us. b1 = F @ CHR ''.'' # us"
proof -
  from eq append_eq_append_conv2 [of b1 "CHR ''_'' # I1" F "CHR ''.'' # t"]
  obtain us where
    "(b1 = F @ us \<and> us @ CHR ''_'' # I1 = CHR ''.'' # t)
     \<or> (b1 @ us = F \<and> CHR ''_'' # I1 = us @ CHR ''.'' # t)"
    by blast
  then show ?thesis
  proof
    assume a: "b1 = F @ us \<and> us @ CHR ''_'' # I1 = CHR ''.'' # t"
    then obtain us' where "us = CHR ''.'' # us'" by (cases us) auto
    then show ?thesis using a by blast
  next
    assume "b1 @ us = F \<and> CHR ''_'' # I1 = us @ CHR ''.'' # t"
    then have "CHR ''.'' \<in> set (CHR ''_'' # I1)" by (metis in_set_conv_decomp)
    then show ?thesis using nd by simp
  qed
qed

lemma no_inner_dot_clash:
  assumes eq: "b1 @ CHR ''_'' # I1 = (b2 @ CHR ''_'' # I2) @ CHR ''.'' # t"
    and nd: "CHR ''.'' \<notin> set I1"
    and inner: "(\<forall>a c. b1 = a @ CHR ''.'' # c \<longrightarrow> a = []) \<or> b1 = ''..''"
  shows False
proof -
  define F where "F = b2 @ CHR ''_'' # I2"
  have Fne: "F \<noteq> []" and Fu: "CHR ''_'' \<in> set F" by (simp_all add: F_def)
  from dot_in_front [of b1 I1 F t] eq nd obtain us where b1: "b1 = F @ CHR ''.'' # us"
    unfolding F_def by blast
  from inner show False
  proof
    assume "\<forall>a c. b1 = a @ CHR ''.'' # c \<longrightarrow> a = []"
    then show False using b1 Fne by blast
  next
    assume "b1 = ''..''"
    then have "set F \<subseteq> set ''..''" using b1 by (metis set_append Un_upper1)
    then show False using Fu by auto
  qed
qed

lemma uniqueFileName_inj:
  assumes "uniqueFileName n1 i1 = uniqueFileName n2 i2"
  shows "i1 = i2"
proof -
  define e1 e2 b1 b2 where "e1 = extname n1" and "e2 = extname n2"
    and "b1 = basename n1 e1" and "b2 = basename n2 e2"
  let ?I1 = "showInt i1" and ?I2 = "showInt i2"
  have u: "b1 @ CHR ''_'' # ?I1 @ e1 = b2 @ CHR ''_'' # ?I2 @ e2"
    using assms by (simp add: uniqueFileName_def Let_def e1_def e2_def b1_def b2_def)
  have s1: "e1 = [] \<or> (\<exists>t. e1 = CHR ''.'' # t \<and> CHR ''.'' \<notin> set t)"
    and s2: "e2 = [] \<or> (\<exists>t. e2 = CHR ''.'' # t \<and> CHR ''.'' \<notin> set t)"
    using extname_shape [of n1] extname_shape [of n2] by (auto simp add: e1_def e2_def)
  have in1: "(\<forall>a c. b1 = a @ CHR ''.'' # c \<longrightarrow> a = []) \<or> b1 = ''..''" if "e1 = []"
    using extname_empty [of n1] basename_extname [of n1] that by (simp add: e1_def b1_def)
  have in2: "(\<forall>a c. b2 = a @ CHR ''.'' # c \<longrightarrow> a = []) \<or> b2 = ''..''" if "e2 = []"
    using extname_empty [of n2] basename_extname [of n2] that by (simp add: e2_def b2_def)
  have e: "e1 = e2"
  proof (cases "e1 = []"; cases "e2 = []")
    assume "e1 = []" "e2 = []"
    then show ?thesis by simp
  next
    assume a: "e1 = []" "e2 \<noteq> []"
    then obtain t where "e2 = CHR ''.'' # t" using s2 by blast
    then have "b1 @ CHR ''_'' # ?I1 = (b2 @ CHR ''_'' # ?I2) @ CHR ''.'' # t"
      using u a by simp
    then have False using no_inner_dot_clash showInt_chars(1) in1 [OF a(1)] by blast
    then show ?thesis ..
  next
    assume a: "e1 \<noteq> []" "e2 = []"
    then obtain t where "e1 = CHR ''.'' # t" using s1 by blast
    then have "b2 @ CHR ''_'' # ?I2 = (b1 @ CHR ''_'' # ?I1) @ CHR ''.'' # t"
      using u a by simp
    then have False using no_inner_dot_clash showInt_chars(1) in2 [OF a(2)] by blast
    then show ?thesis ..
  next
    assume a: "e1 \<noteq> []" "e2 \<noteq> []"
    then obtain t1 t2 where t1: "e1 = CHR ''.'' # t1" "CHR ''.'' \<notin> set t1"
      and t2: "e2 = CHR ''.'' # t2" "CHR ''.'' \<notin> set t2"
      using s1 s2 by blast
    have "(b1 @ CHR ''_'' # ?I1) @ CHR ''.'' # t1 = (b2 @ CHR ''_'' # ?I2) @ CHR ''.'' # t2"
      using u t1(1) t2(1) by simp
    then have "t1 = t2"
      using afterLast_append [OF t1(2)] afterLast_append [OF t2(2)] by metis
    then show ?thesis using t1(1) t2(1) by simp
  qed
  then have "b1 @ CHR ''_'' # ?I1 = b2 @ CHR ''_'' # ?I2" using u by simp
  then have "?I1 = ?I2"
    using afterLast_append [OF showInt_chars(2)] by metis
  then show ?thesis by (rule showInt_inj)
qed

lemma uniqueFileName_segment:
  "CHR ''/'' \<notin> set (uniqueFileName n i)" "uniqueFileName n i \<noteq> []"
  "uniqueFileName n i \<noteq> ''.''" "uniqueFileName n i \<noteq> ''..''"
proof -
  let ?e = "extname n" and ?b = "basename n (extname n)"
  have u: "uniqueFileName n i = ?b @ CHR ''_'' # showInt i @ ?e"
    by (simp add: uniqueFileName_def Let_def)
  have "set ?b \<union> set ?e = set (lastSegment n)"
    using basename_extname [of n] by (metis set_append)
  then have "CHR ''/'' \<notin> set ?b" "CHR ''/'' \<notin> set ?e"
    using lastSegment_noslash [of n] by auto
  then show "CHR ''/'' \<notin> set (uniqueFileName n i)"
    using showInt_chars(3) [of i] by (simp add: u)
  show "uniqueFileName n i \<noteq> []" by (simp add: u)
  have "CHR ''_'' \<in> set (uniqueFileName n i)" by (simp add: u)
  then show "uniqueFileName n i \<noteq> ''.''" "uniqueFileName n i \<noteq> ''..''" by auto
qed


lemma joinPath_snoc:
  "joinPath (xs @ [u]) = (if xs = [] then u else joinPath xs @ CHR ''/'' # u)"
  by (induction xs rule: joinPath.induct) simp_all

lemma splitPath_nonempty: "splitPath s \<noteq> []"
  by (induction s) (auto split: list.splits)

lemma splitPath_segment: "CHR ''/'' \<notin> set u \<Longrightarrow> splitPath u = [u]"
  by (induction u) (auto split: list.splits)

lemma splitPath_append:
  "CHR ''/'' \<notin> set u \<Longrightarrow> splitPath (s @ CHR ''/'' # u) = splitPath s @ [u]"
proof (induction s)
  case Nil
  then show ?case by (simp add: splitPath_segment)
next
  case (Cons c s)
  then show ?case using splitPath_nonempty [of s] by (auto split: list.splits)
qed

lemma normalizeSegments_snoc:
  assumes "u \<noteq> []" "u \<noteq> ''.''" "u \<noteq> ''..''"
  shows "normalizeSegments al acc (segs @ [u]) = normalizeSegments al acc segs @ [u]"
  using assms by (induction segs arbitrary: acc) (auto split: list.splits)

lemma pathJoin_last:
  assumes ns: "CHR ''/'' \<notin> set u" and ne: "u \<noteq> []" and nd: "u \<noteq> ''.''" "u \<noteq> ''..''"
  shows "lastSegment (pathJoin [a, b, u]) = u"
proof -
  define xs where "xs = filter (\<lambda>s. s \<noteq> []) [a, b]"
  define P where "P = (if xs = [] then [] else joinPath xs @ ''/'')"
  define joined where "joined = joinPath (filter (\<lambda>s. s \<noteq> []) [a, b, u])"
  have j: "joined = P @ u"
    using ne by (simp add: joined_def xs_def P_def joinPath_snoc [of "filter (\<lambda>s. s \<noteq> []) [a, b]" u, symmetric])
  have jne: "joined \<noteq> []" using j ne by simp
  obtain segs where sp: "splitPath joined = segs @ [u]"
  proof (cases "xs = []")
    case True
    then have "splitPath joined = [] @ [u]" using j ns by (simp add: P_def splitPath_segment)
    then show ?thesis using that by blast
  next
    case False
    then have "joined = joinPath xs @ CHR ''/'' # u" using j by (simp add: P_def)
    then have "splitPath joined = splitPath (joinPath xs) @ [u]"
      using ns by (simp add: splitPath_append)
    then show ?thesis using that by blast
  qed
  define al where "al = (hd joined \<noteq> CHR ''/'')"
  define nsegs where "nsegs = normalizeSegments al [] segs"
  have body: "joinPath (normalizeSegments al [] (splitPath joined))
              = (if nsegs = [] then u else joinPath nsegs @ CHR ''/'' # u)"
    using ne nd by (simp add: sp normalizeSegments_snoc nsegs_def joinPath_snoc)
  have lastu: "last joined \<noteq> CHR ''/''"
    using j ne ns by (metis last_appendR last_in_set)
  define X where "X = (if al then [] else ''/'') @ (if nsegs = [] then [] else joinPath nsegs @ ''/'')"
  have "normalizePath joined = X @ u"
    using body lastu ne by (auto simp add: normalizePath_def Let_def al_def [symmetric] X_def)
  moreover have "X = [] \<or> last X = CHR ''/''" by (simp add: X_def)
  ultimately have "lastSegment (normalizePath joined) = u"
    using lastSegment_append [OF ns ne] by simp
  moreover have "pathJoin [a, b, u] = (if joined = [] then ''.'' else normalizePath joined)"
    by (simp only: pathJoin_def Let_def joined_def)
  ultimately show ?thesis using jne by simp
qed

lemma getMediaPath_shape:
  assumes "getMediaPath mimeDB (Some m) out d = (Returned p, d')" and "msgMedia m \<noteq> None"
  shows "\<exists>name folder. p = pathJoin [out, folder, uniqueFileName name (msgId m)]"
  using assms
  by (auto simp add: getMediaPath_def Let_def
      split: option.splits outcome.splits if_splits prod.splits)

lemma getMediaPath_lastSegment:
  assumes "getMediaPath mimeDB (Some m) out d = (Returned p, d')" and "msgMedia m \<noteq> None"
  shows "\<exists>name. lastSegment p = uniqueFileName name (msgId m)"
proof -
  from getMediaPath_shape [OF assms] obtain name folder where
    "p = pathJoin [out, folder, uniqueFileName name (msgId m)]" by blast
  then have "lastSegment p = uniqueFileName name (msgId m)"
    using pathJoin_last [OF uniqueFileName_segment] by simp
  then show ?thesis ..
qed

text \<open>
  Claim C9. Whenever \<^verbatim>\<open>getMediaPath\<close> returns a path for each of two messages
  that carry media and have distinct ids, the two paths differ (whatever the documents are
  named, also when they share a name, and in whatever folders): the last segment of the
  path is the base of the file name, then \<^verbatim>\<open>_\<close> and the decimal id, then the
  extension of the file name.
\<close>

theorem media_paths_distinct:
  assumes "getMediaPath mimeDB (Some m1) out1 d1 = (Returned p1, d1')"
    and "getMediaPath mimeDB (Some m2) out2 d2 = (Returned p2, d2')"
    and "msgMedia m1 \<noteq> None" and "msgMedia m2 \<noteq> None"
    and "msgId m1 \<noteq> msgId m2"
  shows "p1 \<noteq> p2 \<and>
         (\<exists>name. lastSegment p1
            = basename name (extname name) @ ''_'' @ showInt (msgId m1) @ extname name)"
proof -
  from getMediaPath_lastSegment [OF assms(1,3)] obtain n1 where
    l1: "lastSegment p1 = uniqueFileName n1 (msgId m1)" by blast
  from getMediaPath_lastSegment [OF assms(2,4)] obtain n2 where
    l2: "lastSegment p2 = uniqueFileName n2 (msgId m2)" by blast
  have "p1 \<noteq> p2"
  proof
    assume "p1 = p2"
    then have "uniqueFileName n1 (msgId m1) = uniqueFileName n2 (msgId m2)"
      using l1 l2 by simp
    then show False using uniqueFileName_inj assms(5) by blast
  qed
  moreover have "lastSegment p1
       = basename n1 (extname n1) @ ''_'' @ showInt (msgId m1) @ extname n1"
    using l1 by (simp add: uniqueFileName_def Let_def)
  ultimately show ?thesis by blast
qed

lemma pdf_name: "mediaFileName noMimeDB (pdfMessage i) pdfMedia = Returned ''report.pdf''"
  by (simp add: mediaFileName_def pdfMedia_def Let_def)

lemma pdf_type: "getMediaType (pdfMessage i) = Some ''pdf''"
  by (simp add: getMediaType_def pdfMessage_def pdfMedia_def documentType_def Let_def)

lemma pdf_folder: "filterString ''pdf'' = ''pdf''"
  by code_simp

lemma pdf_unique:
  "uniqueFileName ''report.pdf'' 5 = ''report_5.pdf''"
  "uniqueFileName ''report.pdf'' 6 = ''report_6.pdf''"
  by code_simp+

lemma pdf_join:
  "pathJoin [''/export/1'', ''pdf'', ''report_5.pdf''] = ''/export/1/pdf/report_5.pdf''"
  "pathJoin [''/export/1'', ''pdf'', ''report_6.pdf''] = ''/export/1/pdf/report_6.pdf''"
  by code_simp+

lemma pdf_dir:
  "dirname ''/export/1/pdf/report_5.pdf'' = ''/export/1/pdf''"
  "dirname ''/export/1/pdf/report_6.pdf'' = ''/export/1/pdf''"
  by code_simp+

lemmas pdf_eval = pdf_name pdf_type pdf_folder pdf_unique pdf_join pdf_dir

lemma pdf_path_5:
  "getMediaPath noMimeDB (Some (pdfMessage 5)) ''/export/1'' (diskWith n)
   = (Returned ''/export/1/pdf/report_5.pdf'', diskWith n)"
proof -
  have m: "msgMedia (pdfMessage 5) = Some pdfMedia" "msgId (pdfMessage 5) = 5"
    by (simp_all add: pdfMessage_def)
  have e: "existsSync ''/export/1/pdf'' (diskWith n)"
    by (simp add: existsSync_def diskWith_def)
  show ?thesis by (simp add: getMediaPath_def m pdf_eval e Let_def)
qed

lemma pdf_path_6:
  "getMediaPath noMimeDB (Some (pdfMessage 6)) ''/export/1'' (diskWith n)
   = (Returned ''/export/1/pdf/report_6.pdf'', diskWith n)"
proof -
  have m: "msgMedia (pdfMessage 6) = Some pdfMedia" "msgId (pdfMessage 6) = 6"
    by (simp_all add: pdfMessage_def)
  have e: "existsSync ''/export/1/pdf'' (diskWith n)"
    by (simp add: existsSync_def diskWith_def)
  show ?thesis by (simp add: getMediaPath_def m pdf_eval e Let_def)
qed

theorem media_paths_distinct_witness:
  "fst (getMediaPath noMimeDB (Some (pdfMessage 5)) ''/export/1'' (diskWith 0))
     \<noteq> fst (getMediaPath noMimeDB (Some (pdfMessage 6)) ''/export/1'' (diskWith 0))
   \<and> fst (getMediaPath noMimeDB (Some (pdfMessage 5)) ''/export/1'' (diskWith 0))
       = Returned ''/export/1/pdf/report_5.pdf''"
proof -
  have m: "msgMedia (pdfMessage 5) \<noteq> None" "msgMedia (pdfMessage 6) \<noteq> None"
    "msgId (pdfMessage 5) \<noteq> msgId (pdfMessage 6)"
    by (simp_all add: pdfMessage_def)
  from media_paths_distinct [OF pdf_path_5 pdf_path_6 m]
  show ?thesis by (simp add: pdf_path_5 pdf_path_6)
qed


lemma checkFileExist_no_media:
  "maybeMessage = None \<or> (\<exists>msg. maybeMessage = Some msg \<and> msgMedia msg = None) \<Longrightarrow>
   checkFileExist mimeDB maybeMessage out d = (Returned False, d)"
  by (auto simp add: checkFileExist_def)

lemma checkFileExist_with_path:
  assumes "maybeMessage = Some msg" and "msgMedia msg \<noteq> None"
    and "getMediaPath mimeDB maybeMessage out d = (Returned p, d1)"
  shows "checkFileExist mimeDB maybeMessage out d =
         (Returned (case files d1 p of
                      Some (File n) \<Rightarrow> n > 0
                    | Some (Directory n) \<Rightarrow> n > 0
                    | Some Unreadable \<Rightarrow> False
                    | None \<Rightarrow> False), d1)"
  using assms
  by (auto simp add: checkFileExist_def existsSync_def statSize_def
      split: option.splits fs_entry.splits)

lemma checkFileExist_true:
  "checkFileExist mimeDB maybeMessage out d = (Returned True, d') \<longleftrightarrow>
     (\<exists>msg p n. maybeMessage = Some msg \<and> msgMedia msg \<noteq> None
        \<and> getMediaPath mimeDB maybeMessage out d = (Returned p, d')
        \<and> (files d' p = Some (File n) \<or> files d' p = Some (Directory n)) \<and> n > 0)"
proof
  assume t: "checkFileExist mimeDB maybeMessage out d = (Returned True, d')"
  then obtain msg where m: "maybeMessage = Some msg" "msgMedia msg \<noteq> None"
    using checkFileExist_no_media [of maybeMessage mimeDB out d]
    by (cases maybeMessage) auto
  obtain r d1 where g: "getMediaPath mimeDB maybeMessage out d = (r, d1)"
    by (cases "getMediaPath mimeDB maybeMessage out d")
  show "\<exists>msg p n. maybeMessage = Some msg \<and> msgMedia msg \<noteq> None
        \<and> getMediaPath mimeDB maybeMessage out d = (Returned p, d')
        \<and> (files d' p = Some (File n) \<or> files d' p = Some (Directory n)) \<and> n > 0"
  proof (cases r)
    case (Threw e)
    then show ?thesis using t m g by (simp add: checkFileExist_def)
  next
    case (Returned p)
    from checkFileExist_with_path [OF m g [unfolded Returned]] t
    have "d1 = d'" and "case files d1 p of Some (File n) \<Rightarrow> n > 0
                    | Some (Directory n) \<Rightarrow> n > 0 | Some Unreadable \<Rightarrow> False
                    | None \<Rightarrow> False"
      by simp_all
    then show ?thesis using m g Returned
      by (auto split: option.splits fs_entry.splits)
  qed
next
  assume "\<exists>msg p n. maybeMessage = Some msg \<and> msgMedia msg \<noteq> None
        \<and> getMediaPath mimeDB maybeMessage out d = (Returned p, d')
        \<and> (files d' p = Some (File n) \<or> files d' p = Some (Directory n)) \<and> n > 0"
  then obtain msg p n where m: "maybeMessage = Some msg" "msgMedia msg \<noteq> None"
    and g: "getMediaPath mimeDB maybeMessage out d = (Returned p, d')"
    and f: "files d' p = Some (File n) \<or> files d' p = Some (Directory n)" "n > 0"
    by blast
  show "checkFileExist mimeDB maybeMessage out d = (Returned True, d')"
    using checkFileExist_with_path [OF m g] f by auto
qed

text \<open>
  Claim C10. \<^verbatim>\<open>checkFileExist\<close> returns \<^verbatim>\<open>true\<close> exactly when the message
  has media, \<^verbatim>\<open>getMediaPath\<close> returns a path for it, and the file system holds
  at exactly that path an entry whose size can be read and is greater than zero. It
  returns \<^verbatim>\<open>false\<close> for a null message or one without media, and, given the path,
  when nothing is at the path, when the file there is empty, and when its size cannot be
  read.
\<close>

theorem checkFileExist_sound:
  "(checkFileExist mimeDB maybeMessage out d = (Returned True, d') \<longleftrightarrow>
     (\<exists>msg p n. maybeMessage = Some msg \<and> msgMedia msg \<noteq> None
        \<and> getMediaPath mimeDB maybeMessage out d = (Returned p, d')
        \<and> (files d' p = Some (File n) \<or> files d' p = Some (Directory n)) \<and> n > 0))
   \<and> (maybeMessage = None \<or> (\<exists>msg. maybeMessage = Some msg \<and> msgMedia msg = None)
        \<longrightarrow> checkFileExist mimeDB maybeMessage out d = (Returned False, d))
   \<and> (maybeMessage = Some msg \<and> msgMedia msg \<noteq> None
        \<and> getMediaPath mimeDB maybeMessage out d = (Returned p, d1)
        \<and> (files d1 p = None \<or> files d1 p = Some (File 0) \<or> files d1 p = Some Unreadable)
        \<longrightarrow> checkFileExist mimeDB maybeMessage out d = (Returned False, d1))"
proof (intro conjI impI)
  show "checkFileExist mimeDB maybeMessage out d = (Returned True, d') \<longleftrightarrow>
     (\<exists>msg p n. maybeMessage = Some msg \<and> msgMedia msg \<noteq> None
        \<and> getMediaPath mimeDB maybeMessage out d = (Returned p, d')
        \<and> (files d' p = Some (File n) \<or> files d' p = Some (Directory n)) \<and> n > 0)"
    by (rule checkFileExist_true)
next
  assume "maybeMessage = None \<or> (\<exists>msg. maybeMessage = Some msg \<and> msgMedia msg = None)"
  then show "checkFileExist mimeDB maybeMessage out d = (Returned False, d)"
    by (rule checkFileExist_no_media)
next
  assume a: "maybeMessage = Some msg \<and> msgMedia msg \<noteq> None
        \<and> getMediaPath mimeDB maybeMessage out d = (Returned p, d1)
        \<and> (files d1 p = None \<or> files d1 p = Some (File 0) \<or> files d1 p = Some Unreadable)"
  then have m: "maybeMessage = Some msg" "msgMedia msg \<noteq> None"
    and g: "getMediaPath mimeDB maybeMessage out d = (Returned p, d1)" by blast+
  show "checkFileExist mimeDB maybeMessage out d = (Returned False, d1)"
    using checkFileExist_with_path [OF m g] a by auto
qed

theorem checkFileExist_sound_witness:
  "checkFileExist noMimeDB (Some (pdfMessage 5)) ''/export/1'' (diskWith 10)
     = (Returned True, diskWith 10)
   \<and> checkFileExist noMimeDB (Some (pdfMessage 5)) ''/export/1'' (diskWith 0)
     = (Returned False, diskWith 0)
   \<and> checkFileExist noMimeDB (Some (pdfMessage 6)) ''/export/1'' (diskWith 10)
     = (Returned False, diskWith 10)
   \<and> checkFileExist noMimeDB (Some (textMessage 5)) ''/export/1'' (diskWith 10)
     = (Returned False, diskWith 10)"
proof -
  have m: "msgMedia (pdfMessage i) \<noteq> None" for i by (simp add: pdfMessage_def)
  have t: "msgMedia (textMessage 5) = None" by (simp add: textMessage_def)
  have f5: "files (diskWith n) ''/export/1/pdf/report_5.pdf'' = Some (File n)" for n
    by (simp add: diskWith_def)
  have f6: "files (diskWith n) ''/export/1/pdf/report_6.pdf'' = None" for n
    by (simp add: diskWith_def)
  note a = checkFileExist_sound [of noMimeDB "Some (pdfMessage 5)" "''/export/1''"
      "diskWith 10" "diskWith 10" "pdfMessage 5" "''/export/1/pdf/report_5.pdf''" "diskWith 10"]
  note b = checkFileExist_sound [of noMimeDB "Some (pdfMessage 5)" "''/export/1''"
      "diskWith 0" "diskWith 0" "pdfMessage 5" "''/export/1/pdf/report_5.pdf''" "diskWith 0"]
  note c = checkFileExist_sound [of noMimeDB "Some (pdfMessage 6)" "''/export/1''"
      "diskWith 10" "diskWith 10" "pdfMessage 6" "''/export/1/pdf/report_6.pdf''" "diskWith 10"]
  note e = checkFileExist_sound [of noMimeDB "Some (textMessage 5)" "''/export/1''"
      "diskWith 10" "diskWith 10" "textMessage 5" "''x''" "diskWith 10"]
  have 1: "checkFileExist noMimeDB (Some (pdfMessage 5)) ''/export/1'' (diskWith 10)
           = (Returned True, diskWith 10)"
    using a m [of 5] pdf_path_5 [of 10] f5 [of 10] by auto
  have 2: "checkFileExist noMimeDB (Some (pdfMessage 5)) ''/export/1'' (diskWith 0)
           = (Returned False, diskWith 0)"
    using b m [of 5] pdf_path_5 [of 0] f5 [of 0] by auto
  have 3: "checkFileExist noMimeDB (Some (pdfMessage 6)) ''/export/1'' (diskWith 10)
           = (Returned False, diskWith 10)"
    using c m [of 6] pdf_path_6 [of 10] f6 [of 10] by auto
  have 4: "checkFileExist noMimeDB (Some (textMessage 5)) ''/export/1'' (diskWith 10)
           = (Returned False, diskWith 10)"
    using e t by auto
  show ?thesis using 1 2 3 4 by simp
qed

section \<open>Properties of the checkpoint\<close>

lemma retryFrom_view:
  fixes V :: "downloader \<Rightarrow> 'v"
  assumes pd: "\<And>ms d. V (precisionDelay ms d) = V d"
    and uf: "\<And>b w d. V (updateFloodWaitHistory b w d) = V d"
    and ev: "\<And>e d. V (d\<lparr>events := e\<rparr>) = V d"
    and op: "\<And>d. V (snd (operation d)) = V d"
  shows "n = Suc maxRetries - attempt \<Longrightarrow>
         V (snd (retryFrom operation maxRetries attempt d)) = V d"
proof (induction n arbitrary: attempt d)
  case 0
  then have "maxRetries < attempt" by simp
  then show ?case by (simp add: retryFrom_exhausted)
next
  case (Suc n)
  then have le: "attempt \<le> maxRetries" by simp
  let ?d0 = "d\<lparr>events := events d @ [Attempt attempt]\<rparr>"
  obtain r d1 where o: "operation ?d0 = (r, d1)" by (cases "operation ?d0")
  have v1: "V d1 = V d" using op [of ?d0] o ev by simp
  have n: "n = Suc maxRetries - (attempt + 1)" using Suc.prems by simp
  note ih = Suc.IH [OF n]
  show ?case
    using le o v1 ih pd uf
    by (subst retryFrom.simps) (auto simp add: Let_def split: outcome.splits)
qed

lemma selectionView_simps [simp]:
  "selectionView (precisionDelay ms d) = selectionView d"
  "selectionView (updateFloodWaitHistory b w d) = selectionView d"
  "selectionView (d\<lparr>events := e\<rparr>) = selectionView d"
  "selectionView (initializeSpeedMonitor d) = selectionView d"
  by (simp_all add: selectionView_def precisionDelay_def sleep_def
      updateFloodWaitHistory_def initializeSpeedMonitor_def Let_def)

lemma retryOperation_selection:
  assumes "keepsSelection operation"
  shows "selectionView (snd (retryOperation operation n d)) = selectionView d"
  unfolding retryOperation_def
  by (rule retryFrom_view [where V = selectionView, OF _ _ _ _ refl])
     (use assms in \<open>simp_all add: keepsSelection_def\<close>)


lemma downloadCatch_no_flood:
  assumes "\<And>d e r. again d = Some (Threw e, r) \<Longrightarrow> \<not> str_includes e ''FLOOD_WAIT''"
    and "downloadCatch again err d = Some (Threw e, d')"
  shows "\<not> str_includes e ''FLOOD_WAIT''"
  using assms by (auto simp add: downloadCatch_def Let_def split: if_splits)

lemma downloadChannel_no_flood:
  "downloadChannel fuel getMessages processPage offsetMsgId d = Some (Threw e, d')
   \<Longrightarrow> \<not> str_includes e ''FLOOD_WAIT''"
proof (induction fuel arbitrary: offsetMsgId d e d')
  case 0
  then show ?case by (simp add: downloadChannel.simps)
next
  case (Suc fuel)
  have again: "\<not> str_includes e ''FLOOD_WAIT''"
    if "downloadCatch (\<lambda>d'. downloadChannel fuel getMessages processPage off d') err d1
        = Some (Threw e, d')" for off err d1
    using downloadCatch_no_flood [OF _ that] Suc.IH by blast
  show ?case
    using Suc.prems again
    by (auto simp add: downloadChannel.simps Let_def
        split: prod.splits outcome.splits option.splits if_splits)
qed


lemma retryFrom_returned:
  "n = Suc maxRetries - attempt \<Longrightarrow>
   retryFrom operation maxRetries attempt d = (Returned (Some v), d') \<Longrightarrow>
   \<exists>dA dB. operation dA = (Returned v, dB)"
proof (induction n arbitrary: attempt d)
  case 0
  then have "maxRetries < attempt" by simp
  then show ?case using 0 by (simp add: retryFrom_exhausted)
next
  case (Suc n)
  then have le: "attempt \<le> maxRetries" by simp
  let ?d0 = "d\<lparr>events := events d @ [Attempt attempt]\<rparr>"
  obtain r d1 where o: "operation ?d0 = (r, d1)" by (cases "operation ?d0")
  have n: "n = Suc maxRetries - (attempt + 1)" using Suc.prems by simp
  from retryFrom_cases [of attempt maxRetries operation d r d1, OF le o]
  show ?case
  proof (elim disjE exE conjE)
    fix w d'' assume "retryFrom operation maxRetries attempt d = (Returned (Some w), d'')"
      "r = Returned w"
    then show ?thesis using Suc.prems(2) o by auto
  next
    fix msg d'' assume "retryFrom operation maxRetries attempt d = (Threw msg, d'')"
    then show ?thesis using Suc.prems(2) by simp
  next
    fix dn msg assume "retryFrom operation maxRetries attempt d
        = retryFrom operation maxRetries (attempt + 1) dn"
    then show ?thesis using Suc.IH [OF n, of dn] Suc.prems(2) by simp
  qed
qed

lemma maxId_nonempty:
  assumes "ids \<noteq> []"
  shows "\<exists>m. maxId ids = Some m \<and> m \<in> set ids"
proof -
  have "fold max rest i \<in> set (i # rest)" for rest and i :: int
    by (induction rest arbitrary: i) (auto simp add: max_def)
  then show ?thesis using assms by (cases ids) (auto simp add: maxId_def)
qed

lemma checkpointRisesI:
  assumes "selectionWrites d' = selectionWrites d @ ws"
    and "map messageOffsetId ws = map Some vs"
    and "sorted vs" and "list_all (\<lambda>v. low < v) vs"
    and "list_all (\<lambda>w. channelId w = channelId (getLastSelection d)) ws"
    and "lastSelectionFile d' = (if ws = [] then lastSelectionFile d else Some (last ws))"
  shows "checkpointRises low d d'"
  unfolding checkpointRises_def
  apply (rule exI [of _ ws])
  apply (rule exI [of _ vs])
  apply (intro conjI)
  apply (rule assms)+
  done

lemma checkpointRisesE:
  assumes "checkpointRises low d d'"
  obtains ws vs where "selectionWrites d' = selectionWrites d @ ws"
    and "map messageOffsetId ws = map Some vs"
    and "sorted vs" and "list_all (\<lambda>v. low < v) vs"
    and "list_all (\<lambda>w. channelId w = channelId (getLastSelection d)) ws"
    and "lastSelectionFile d' = (if ws = [] then lastSelectionFile d else Some (last ws))"
  using assms unfolding checkpointRises_def by (elim exE conjE)

lemma selectionView_fields:
  assumes "selectionView d' = selectionView d"
  shows "lastSelectionFile d' = lastSelectionFile d" "selectionWrites d' = selectionWrites d"
    "selectiveMode d' = selectiveMode d" "startFromMessageId d' = startFromMessageId d"
    "getLastSelection d' = getLastSelection d"
  using assms by (simp_all add: selectionView_def getLastSelection_def)

lemma checkpointRises_same:
  assumes "selectionView d' = selectionView d"
  shows "checkpointRises low d d'"
  by (rule checkpointRisesI [of _ _ "[]" "[]"]) (simp_all add: selectionView_fields [OF assms])

lemma checkpointRises_view:
  assumes v: "selectionView d1 = selectionView d" and c: "checkpointRises low d1 d'"
  shows "checkpointRises low d d'"
proof -
  from c obtain ws vs where a: "selectionWrites d' = selectionWrites d1 @ ws"
    "map messageOffsetId ws = map Some vs" "sorted vs" "list_all (\<lambda>v. low < v) vs"
    "list_all (\<lambda>w. channelId w = channelId (getLastSelection d1)) ws"
    "lastSelectionFile d' = (if ws = [] then lastSelectionFile d1 else Some (last ws))"
    by (rule checkpointRisesE)
  show ?thesis
    using a unfolding selectionView_fields [OF v] by (rule checkpointRisesI)
qed

lemma checkpointRises_lower:
  assumes c: "checkpointRises low d d'" and "low' \<le> low"
  shows "checkpointRises low' d d'"
proof -
  from c obtain ws vs where a: "selectionWrites d' = selectionWrites d @ ws"
    "map messageOffsetId ws = map Some vs" "sorted vs" "list_all (\<lambda>v. low < v) vs"
    "list_all (\<lambda>w. channelId w = channelId (getLastSelection d)) ws"
    "lastSelectionFile d' = (if ws = [] then lastSelectionFile d else Some (last ws))"
    by (rule checkpointRisesE)
  have "list_all (\<lambda>v. low' < v) vs"
    using a(4) assms(2) by (auto simp add: list_all_iff)
  with a(1,2,3) show ?thesis using a(5,6) by (rule checkpointRisesI)
qed

lemma checkpointRises_write:
  assumes w: "d3 = updateLastSelection (Some (Some m)) None d2" and lo: "low < m"
    and v: "selectionView dz = selectionView d3"
    and c: "checkpointRises m dz d'"
  shows "checkpointRises low d2 d'"
proof -
  from c obtain ws vs where a0: "selectionWrites d' = selectionWrites dz @ ws"
    "map messageOffsetId ws = map Some vs" "sorted vs" "list_all (\<lambda>v. m < v) vs"
    "list_all (\<lambda>w. channelId w = channelId (getLastSelection dz)) ws"
    "lastSelectionFile d' = (if ws = [] then lastSelectionFile dz else Some (last ws))"
    by (rule checkpointRisesE)
  note a = a0 [unfolded selectionView_fields [OF v]]
  have big: "list_all (\<lambda>v. low < v) vs"
    using a(4) lo by (auto simp add: list_all_iff)
  show ?thesis
  proof (cases "writeFails d2")
    case True
    then have e: "d3 = d2" using w by (simp add: updateLastSelection_def Let_def)
    show ?thesis using a(1,2,3) big a(5,6) unfolding e by (rule checkpointRisesI)
  next
    case False
    define merged where "merged = \<lparr>messageOffsetId = Some m,
                                    channelId = channelId (getLastSelection d2)\<rparr>"
    have d3: "selectionWrites d3 = selectionWrites d2 @ [merged]"
      "lastSelectionFile d3 = Some merged"
      using w False by (simp_all add: updateLastSelection_def Let_def merged_def)
    have g3: "channelId (getLastSelection d3) = channelId (getLastSelection d2)"
      using d3(2) by (simp add: getLastSelection_def merged_def)
    have 1: "selectionWrites d' = selectionWrites d2 @ (merged # ws)" using a(1) d3 by simp
    have 2: "map messageOffsetId (merged # ws) = map Some (m # vs)"
      using a(2) by (simp add: merged_def)
    have 3: "sorted (m # vs)" using a(3,4) by (auto simp add: list_all_iff less_imp_le)
    have 4: "list_all (\<lambda>v. low < v) (m # vs)" using big lo by simp
    have 5: "list_all (\<lambda>w. channelId w = channelId (getLastSelection d2)) (merged # ws)"
      using a(5) by (simp add: g3) (simp add: merged_def)
    have 6: "lastSelectionFile d' =
             (if merged # ws = [] then lastSelectionFile d2 else Some (last (merged # ws)))"
      using a(6) d3 by simp
    show ?thesis using 1 2 3 4 5 6 by (rule checkpointRisesI)
  qed
qed

lemma storedOffset_write:
  assumes "d3 = updateLastSelection (Some (Some m)) None d2"
  shows "storedOffset d3 = (if writeFails d2 then storedOffset d2 else Some m)"
    and "selectiveMode d3 = selectiveMode d2" and "startFromMessageId d3 = startFromMessageId d2"
  using assms by (simp_all add: updateLastSelection_def storedOffset_def getLastSelection_def Let_def)

lemma downloadChannel_fetch_throws:
  assumes "d0 = initializeSpeedMonitor d"
    and "offset = (if selectiveMode d0 \<and> offsetMsgId = Some 0
                   then Some (startFromMessageId d0) else offsetMsgId)"
    and "retryOperation (getMessages offset) 5 d0 = (Threw err, d1)"
  shows "downloadChannel (Suc fuel) getMessages processPage offsetMsgId d =
         downloadCatch (\<lambda>d'. downloadChannel fuel getMessages processPage offset d') err d1"
  using assms(3) unfolding assms(1,2) by (simp add: downloadChannel.simps Let_def)

lemma downloadChannel_fetch_nothing:
  assumes "d0 = initializeSpeedMonitor d"
    and "offset = (if selectiveMode d0 \<and> offsetMsgId = Some 0
                   then Some (startFromMessageId d0) else offsetMsgId)"
    and "retryOperation (getMessages offset) 5 d0 = (Returned None, d1)"
  shows "downloadChannel (Suc fuel) getMessages processPage offsetMsgId d =
         downloadCatch (\<lambda>d'. downloadChannel fuel getMessages processPage offset d')
           ''Cannot read properties of undefined (reading length)'' d1"
  using assms(3) unfolding assms(1,2) by (simp add: downloadChannel.simps Let_def)

lemma downloadChannel_no_messages:
  assumes "d0 = initializeSpeedMonitor d"
    and "offset = (if selectiveMode d0 \<and> offsetMsgId = Some 0
                   then Some (startFromMessageId d0) else offsetMsgId)"
    and "retryOperation (getMessages offset) 5 d0 = (Returned (Some []), d1)"
  shows "downloadChannel (Suc fuel) getMessages processPage offsetMsgId d =
         Some (Returned (), d1)"
  using assms(3) unfolding assms(1,2) by (simp add: downloadChannel.simps Let_def)

lemma downloadChannel_page_throws:
  assumes "d0 = initializeSpeedMonitor d"
    and "offset = (if selectiveMode d0 \<and> offsetMsgId = Some 0
                   then Some (startFromMessageId d0) else offsetMsgId)"
    and "retryOperation (getMessages offset) 5 d0 = (Returned (Some msgs), d1)"
    and "msgs \<noteq> []"
    and "filtered = (if selectiveMode d1
                     then filter (\<lambda>i. i \<ge> startFromMessageId d1) msgs else msgs)"
    and "processPage (sort filtered) d1 = (Threw err, d2)"
  shows "downloadChannel (Suc fuel) getMessages processPage offsetMsgId d =
         downloadCatch (\<lambda>d'. downloadChannel fuel getMessages processPage offset d') err d2"
  using assms(3,4,6) unfolding assms(1,2,5) by (simp add: downloadChannel.simps Let_def)

lemma downloadChannel_page:
  assumes "d0 = initializeSpeedMonitor d"
    and "offset = (if selectiveMode d0 \<and> offsetMsgId = Some 0
                   then Some (startFromMessageId d0) else offsetMsgId)"
    and "retryOperation (getMessages offset) 5 d0 = (Returned (Some msgs), d1)"
    and "msgs \<noteq> []"
    and "filtered = (if selectiveMode d1
                     then filter (\<lambda>i. i \<ge> startFromMessageId d1) msgs else msgs)"
    and "processPage (sort filtered) d1 = (Returned u, d2)"
    and "d3 = updateLastSelection (Some (maxId filtered)) None d2"
  shows "downloadChannel (Suc fuel) getMessages processPage offsetMsgId d =
         (if length msgs = MESSAGE_LIMIT_CONFIG then
            (case downloadChannel fuel getMessages processPage (maxId filtered)
                    (precisionDelay RATE_LIMIT_DELAY_CONFIG d3) of
               None \<Rightarrow> None
             | Some (Returned u, d4) \<Rightarrow> Some (Returned (), d4)
             | Some (Threw err, d4) \<Rightarrow>
                 downloadCatch (\<lambda>d'. downloadChannel fuel getMessages processPage offset d')
                   err d4)
          else Some (Returned (), d3))"
  using assms(3,4,6) unfolding assms(1,2,5,7) by (simp add: downloadChannel.simps Let_def)

lemma storedOffset_view:
  "selectionView a = selectionView b \<Longrightarrow> storedOffset a = storedOffset b"
  by (simp add: selectionView_def storedOffset_def getLastSelection_def)

lemma notAbove_mono: "notAbove stored a \<Longrightarrow> a \<le> b \<Longrightarrow> notAbove stored b"
  by (simp add: notAbove_def split: option.splits)


lemma downloadChannel_rises:
  assumes gm: "\<And>off. keepsSelection (getMessages off)"
    and pp: "\<And>ids. keepsSelection (processPage ids)"
    and src: "sourceAscending getMessages"
  shows "downloadChannel fuel getMessages processPage (Some off) d = Some (r, d') \<Longrightarrow>
         notAbove (storedOffset d) off \<Longrightarrow> 0 \<le> startFromMessageId d \<Longrightarrow>
         (selectiveMode d \<longrightarrow> off = 0 \<or> startFromMessageId d \<le> off + 1) \<Longrightarrow>
         checkpointRises off d d'"
proof (induction fuel arbitrary: off d r d')
  case 0
  then show ?case by (simp add: downloadChannel.simps)
next
  case (Suc fuel)
  note run = Suc.prems(1) and stored = Suc.prems(2) and start = Suc.prems(3)
    and sel = Suc.prems(4)
  define d0 where "d0 = initializeSpeedMonitor d"
  define o1 where "o1 = (if selectiveMode d0 \<and> off = 0 then startFromMessageId d0 else off)"
  have v0: "selectionView d0 = selectionView d" by (simp add: d0_def)
  note f0 = selectionView_fields [OF v0]
  have offset: "Some o1 = (if selectiveMode d0 \<and> Some off = Some 0
                           then Some (startFromMessageId d0) else Some off)"
    by (simp add: o1_def)
  have le: "off \<le> o1" using start by (simp add: o1_def f0)
  have K: "selectiveMode d \<longrightarrow> startFromMessageId d \<le> o1 + 1"
    using sel by (auto simp add: o1_def f0)
  obtain res d1 where ro: "retryOperation (getMessages (Some o1)) 5 d0 = (res, d1)"
    by (cases "retryOperation (getMessages (Some o1)) 5 d0")
  have v1: "selectionView d1 = selectionView d"
    using retryOperation_selection [OF gm, of "Some o1" 5 d0] ro v0 by simp
  have deeper: "checkpointRises off d d''"
    if v: "selectionView dA = selectionView d" and low: "o1 \<le> lo"
      and c: "downloadChannel fuel getMessages processPage (Some lo) dA = Some (r', d'')"
      and st: "notAbove (storedOffset dA) lo"
    for dA lo r' d''
  proof -
    note f = selectionView_fields [OF v]
    have "checkpointRises lo dA d''"
    proof (rule Suc.IH [OF c st])
      show "0 \<le> startFromMessageId dA" using start by (simp add: f)
      show "selectiveMode dA \<longrightarrow> lo = 0 \<or> startFromMessageId dA \<le> lo + 1"
        using K low by (auto simp add: f)
    qed
    moreover have "off \<le> lo" using le low by simp
    ultimately have "checkpointRises off dA d''" by (rule checkpointRises_lower)
    with v show ?thesis by (rule checkpointRises_view)
  qed
  have again: "checkpointRises off d d'"
    if v: "selectionView dX = selectionView d"
      and c: "downloadCatch (\<lambda>d'. downloadChannel fuel getMessages processPage (Some o1) d')
                err dX = Some (r, d')"
    for dX err
  proof (cases "str_includes err ''FLOOD_WAIT''")
    case True
    define dA where "dA = precisionDelay (real (floodWaitSecondsOr300 err) * 1000)
       (updateFloodWaitHistory True (real (floodWaitSecondsOr300 err) * 1000 / 1000) dX)"
    have vA: "selectionView dA = selectionView d" using v by (simp add: dA_def)
    have cA: "downloadChannel fuel getMessages processPage (Some o1) dA = Some (r, d')"
      using c True by (simp add: downloadCatch_def Let_def dA_def)
    have "notAbove (storedOffset dA) o1"
      using stored le storedOffset_view [OF vA] notAbove_mono by simp
    with vA order_refl cA show ?thesis by (rule deeper)
  next
    case False
    then have "d' = dX" using c by (simp add: downloadCatch_def)
    then show ?thesis using v by (simp add: checkpointRises_same)
  qed
  show ?case
  proof (cases res)
    case (Threw err)
    have "downloadCatch (\<lambda>d'. downloadChannel fuel getMessages processPage (Some o1) d')
            err d1 = Some (r, d')"
      using run downloadChannel_fetch_throws [where getMessages = getMessages and processPage = processPage and fuel = fuel, OF d0_def offset ro [unfolded Threw]] by simp
    with v1 show ?thesis by (rule again)
  next
    case (Returned page)
    show ?thesis
    proof (cases page)
      case None
      have "downloadCatch (\<lambda>d'. downloadChannel fuel getMessages processPage (Some o1) d')
              ''Cannot read properties of undefined (reading length)'' d1 = Some (r, d')"
        using run downloadChannel_fetch_nothing [where getMessages = getMessages and processPage = processPage and fuel = fuel, OF d0_def offset ro [unfolded Returned None]]
        by simp
      with v1 show ?thesis by (rule again)
    next
      case (Some msgs)
      note ro' = ro [unfolded Returned Some]
      show ?thesis
      proof (cases "msgs = []")
        case True
        have "d' = d1"
          using run downloadChannel_no_messages [where getMessages = getMessages and processPage = processPage and fuel = fuel, OF d0_def offset ro' [unfolded True]] by simp
        then show ?thesis using v1 by (simp add: checkpointRises_same)
      next
        case False
        obtain dA dB where "getMessages (Some o1) dA = (Returned msgs, dB)"
          using retryFrom_returned [OF refl ro' [unfolded retryOperation_def]] by blast
        then have above: "list_all (\<lambda>i. o1 < i) msgs"
          using src unfolding sourceAscending_def by blast
        note f1 = selectionView_fields [OF v1]
        have "filter (\<lambda>i. startFromMessageId d \<le> i) msgs = msgs" if "selectiveMode d"
          using above K that by (auto simp add: list_all_iff filter_id_conv)
        then have filtered: "msgs = (if selectiveMode d1
                     then filter (\<lambda>i. i \<ge> startFromMessageId d1) msgs else msgs)"
          by (simp add: f1)
        obtain m where m: "maxId msgs = Some m" "m \<in> set msgs"
          using maxId_nonempty [OF False] by blast
        have lt: "o1 < m" using above m(2) by (simp add: list_all_iff)
        obtain pr d2 where p: "processPage (sort msgs) d1 = (pr, d2)"
          by (cases "processPage (sort msgs) d1")
        have v2: "selectionView d2 = selectionView d"
          using pp [of "sort msgs"] p v1 by (auto simp add: keepsSelection_def dest: spec [of _ d1])
        show ?thesis
        proof (cases pr)
          case (Threw err)
          have "downloadCatch (\<lambda>d'. downloadChannel fuel getMessages processPage (Some o1) d')
                  err d2 = Some (r, d')"
            using run downloadChannel_page_throws
              [where getMessages = getMessages and processPage = processPage and fuel = fuel, OF d0_def offset ro' False filtered p [unfolded Threw]] by simp
          with v2 show ?thesis by (rule again)
        next
          case (Returned u)
          define d3 where "d3 = updateLastSelection (Some (Some m)) None d2"
          define dz where "dz = precisionDelay RATE_LIMIT_DELAY_CONFIG d3"
          have vz: "selectionView dz = selectionView d3" by (simp add: dz_def)
          have low: "off < m" using le lt by simp
          have wrote: "checkpointRises off d dE" if "checkpointRises m dz dE" for dE
            using v2 checkpointRises_write [OF d3_def low vz that] by (rule checkpointRises_view)
          note step = downloadChannel_page
            [where getMessages = getMessages and processPage = processPage and fuel = fuel,
             OF d0_def offset ro' False filtered p [unfolded Returned] d3_def [folded m(1)],
             unfolded m(1), folded dz_def]
          show ?thesis
          proof (cases "length msgs = MESSAGE_LIMIT_CONFIG")
            case False
            then have "d' = d3" using run step by simp
            moreover have "checkpointRises off d dz"
              by (rule wrote) (rule checkpointRises_same [OF refl])
            then have "checkpointRises off d d3"
              by (rule checkpointRisesE)
                 (rule checkpointRisesI, simp_all add: selectionView_fields [OF vz])
            ultimately show ?thesis by simp
          next
            case True
            obtain cr d4 where
              child: "downloadChannel fuel getMessages processPage (Some m) dz = Some (cr, d4)"
              using run step True
              by (cases "downloadChannel fuel getMessages processPage (Some m) dz") auto
            have "storedOffset dz = storedOffset d3" using vz by (rule storedOffset_view)
            also have "\<dots> = (if writeFails d2 then storedOffset d2 else Some m)"
              using d3_def by (rule storedOffset_write)
            also have "storedOffset d2 = storedOffset d" using v2 by (rule storedOffset_view)
            finally have sz: "notAbove (storedOffset dz) m"
              using stored low notAbove_mono [of "storedOffset d" off m]
              by (simp add: notAbove_def)
            have f3: "selectiveMode d3 = selectiveMode d2"
              "startFromMessageId d3 = startFromMessageId d2"
              using d3_def by (rule storedOffset_write)+
            have "checkpointRises m dz d4"
            proof (rule Suc.IH [OF child sz])
              show "0 \<le> startFromMessageId dz"
                using start by (simp add: selectionView_fields [OF vz] f3
                    selectionView_fields [OF v2])
              show "selectiveMode dz \<longrightarrow> m = 0 \<or> startFromMessageId dz \<le> m + 1"
                using K lt by (auto simp add: selectionView_fields [OF vz] f3
                    selectionView_fields [OF v2])
            qed
            then have c4: "checkpointRises off d d4" by (rule wrote)
            have "d' = d4"
            proof (cases cr)
              case (Returned u')
              then show ?thesis using run step True child by simp
            next
              case (Threw err)
              have "\<not> str_includes err ''FLOOD_WAIT''"
                using child [unfolded Threw] by (rule downloadChannel_no_flood)
              then show ?thesis
                using run step True child Threw by (simp add: downloadCatch_def)
            qed
            then show ?thesis using c4 by simp
          qed
        qed
      qed
    qed
  qed
qed


lemma checkpointKept_after:
  assumes k: "checkpointKept channel d d'" and c: "channelId (getLastSelection d) = Some channel"
  shows "channelId (getLastSelection d') = Some channel" and "resumePoint d \<le> resumePoint d'"
proof -
  from k obtain ws vs where a: "selectionWrites d' = selectionWrites d @ ws"
    "map messageOffsetId ws = map Some vs" "sorted (resumePoint d # vs)"
    "list_all (\<lambda>w. channelId w = Some channel) ws"
    "lastSelectionFile d' = (if ws = [] then lastSelectionFile d else Some (last ws))"
    unfolding checkpointKept_def by (elim exE conjE)
  have both: "channelId (getLastSelection d') = Some channel
              \<and> resumePoint d \<le> resumePoint d'"
  proof (cases "ws = []")
    case True
    then have "getLastSelection d' = getLastSelection d"
      using a(5) by (simp add: getLastSelection_def)
    then show ?thesis using c by (simp add: resumePoint_def storedOffset_def)
  next
    case False
    then have g: "getLastSelection d' = last ws" using a(5) by (simp add: getLastSelection_def)
    have "last ws \<in> set ws" using False by simp
    then have 1: "channelId (last ws) = Some channel" using a(4) by (simp add: list_all_iff)
    have ne: "vs \<noteq> []" using a(2) False by auto
    have "messageOffsetId (last ws) = last (map messageOffsetId ws)"
      using False by (simp add: last_map)
    also have "\<dots> = Some (last vs)" using ne by (simp add: a(2) last_map)
    finally have 2: "resumePoint d' = last vs" by (simp add: resumePoint_def storedOffset_def g)
    have "last vs \<in> set vs" using ne by simp
    then have "resumePoint d \<le> last vs" using a(3) by simp
    then show ?thesis using 1 2 g by simp
  qed
  from both show "channelId (getLastSelection d') = Some channel" by (rule conjunct1)
  from both show "resumePoint d \<le> resumePoint d'" by (rule conjunct2)
qed

lemma downloadTurn_kept:
  assumes gm: "\<And>offset. keepsSelection (getMessages offset)"
    and pp: "\<And>ids. keepsSelection (processPage ids)"
    and src: "sourceAscending getMessages"
    and chan: "channelId (getLastSelection d) = Some chosenChannel"
    and start: "0 \<le> startFromMessageId d"
    and sel: "selectiveMode d \<longrightarrow> resumePoint d = 0 \<or> startFromMessageId d \<le> resumePoint d + 1"
    and run: "downloadTurn fuel getMessages processPage chosenChannel d = Some (r, d')"
  shows "checkpointKept chosenChannel d d'"
proof -
  define offset where "offset = resumePoint d"
  define w0 where "w0 = \<lparr>messageOffsetId = Some offset, channelId = Some chosenChannel\<rparr>"
  define d1 where
    "d1 = updateLastSelection (Some (Some offset)) (Some (Some chosenChannel)) d"
  have ro: "resumeOffset chosenChannel d = (offset, d1)"
    by (simp add: resumeOffset_def Let_def chan offset_def d1_def resumePoint_def
        storedOffset_def)
  have c: "downloadChannel fuel getMessages processPage (Some offset) d1 = Some (r, d')"
    using run by (simp add: downloadTurn_def ro)
  have f1: "selectiveMode d1 = selectiveMode d" "startFromMessageId d1 = startFromMessageId d"
    by (simp_all add: d1_def updateLastSelection_def Let_def)
  have s1: "notAbove (storedOffset d1) offset"
    by (cases "writeFails d")
       (simp_all add: d1_def updateLastSelection_def Let_def storedOffset_def
          getLastSelection_def notAbove_def offset_def resumePoint_def split: option.splits)
  have "checkpointRises offset d1 d'"
    by (rule downloadChannel_rises [OF gm pp src c s1])
       (use start sel in \<open>simp_all add: f1 offset_def\<close>)
  then obtain ws vs where a: "selectionWrites d' = selectionWrites d1 @ ws"
    "map messageOffsetId ws = map Some vs" "sorted vs" "list_all (\<lambda>v. offset < v) vs"
    "list_all (\<lambda>w. channelId w = channelId (getLastSelection d1)) ws"
    "lastSelectionFile d' = (if ws = [] then lastSelectionFile d1 else Some (last ws))"
    by (rule checkpointRisesE)
  have above: "sorted (offset # vs)" using a(3,4) by (auto simp add: list_all_iff less_imp_le)
  show ?thesis
  proof (cases "writeFails d")
    case True
    then have e: "d1 = d" by (simp add: d1_def updateLastSelection_def Let_def)
    have "selectionWrites d' = selectionWrites d @ ws
        \<and> map messageOffsetId ws = map Some vs
        \<and> sorted (resumePoint d # vs)
        \<and> list_all (\<lambda>w. channelId w = Some chosenChannel) ws
        \<and> lastSelectionFile d' = (if ws = [] then lastSelectionFile d else Some (last ws))"
      using a(1,2,5,6) above unfolding e chan offset_def by simp
    then show ?thesis unfolding checkpointKept_def by (intro exI)
  next
    case False
    have d1: "selectionWrites d1 = selectionWrites d @ [w0]" "lastSelectionFile d1 = Some w0"
      using False by (simp_all add: d1_def updateLastSelection_def Let_def w0_def)
    have g1: "channelId (getLastSelection d1) = Some chosenChannel"
      using d1(2) by (simp add: getLastSelection_def w0_def)
    have "selectionWrites d' = selectionWrites d @ (w0 # ws)
        \<and> map messageOffsetId (w0 # ws) = map Some (offset # vs)
        \<and> sorted (resumePoint d # offset # vs)
        \<and> list_all (\<lambda>w. channelId w = Some chosenChannel) (w0 # ws)
        \<and> lastSelectionFile d' =
            (if w0 # ws = [] then lastSelectionFile d else Some (last (w0 # ws)))"
      using a(1,2,5,6) above d1 unfolding g1 by (simp add: w0_def offset_def)
    then show ?thesis unfolding checkpointKept_def by (intro exI)
  qed
qed

lemma keepsSelection_messagesAfter: "keepsSelection (messagesAfter ids offset)"
  by (simp add: keepsSelection_def messagesAfter_def)

lemma keepsSelection_pageDone: "keepsSelection (pageDone ids)"
  by (simp add: keepsSelection_def pageDone_def)

lemma sourceAscending_messagesAfter: "sourceAscending (messagesAfter ids)"
  by (auto simp add: sourceAscending_def messagesAfter_def list_all_iff)

text \<open>
  Where the checkpoint is kept. One turn of the download loop, which is also what a restart
  of the program runs, on the channel that the file already names: when the source answers
  a request after an offset only with ids above it, when the steps between fetching a page
  and writing the checkpoint leave the file alone, and when in selective mode the first
  wanted id is not beyond the resume point (so that the filter drops nothing), then every
  write of the turn carries a number as offset, these offsets never decrease and none is
  below the offset stored before, the file holds the last write and still names the
  channel. Failed writes, flood waits, thrown errors and pages of 3000 messages are
  covered.
\<close>

lemma downloadTurn_monotone:
  assumes "\<forall>offset. keepsSelection (getMessages offset)"
    and "\<forall>ids. keepsSelection (processPage ids)"
    and "sourceAscending getMessages"
    and "channelId (getLastSelection d) = Some chosenChannel"
    and "0 \<le> startFromMessageId d"
    and "selectiveMode d \<longrightarrow> resumePoint d = 0 \<or> startFromMessageId d \<le> resumePoint d + 1"
    and "downloadTurn fuel getMessages processPage chosenChannel d = Some (r, d')"
  shows "checkpointKept chosenChannel d d'
         \<and> channelId (getLastSelection d') = Some chosenChannel
         \<and> resumePoint d \<le> resumePoint d'"
proof -
  have k: "checkpointKept chosenChannel d d'"
    using assms(1,2) by (intro downloadTurn_kept [OF _ _ assms(3-7)]) simp_all
  from k checkpointKept_after [OF k assms(4)] show ?thesis by simp
qed

text \<open>
  The checkpoint is kept per channel: with the offset 500 stored for channel 1, a start on
  channel 2 resumes from 0 and writes 0 as the stored offset (lines 1983 to 1987 of
  \<^verbatim>\<open>configureDownload\<close>).
\<close>

lemma resumeOffset_other_channel:
  "storedOffset storedAt500 = Some 500
   \<and> fst (resumeOffset 2 storedAt500) = 0
   \<and> storedOffset (snd (resumeOffset 2 storedAt500)) = Some 0"
  by (simp add: storedAt500_def freshDownloader_def resumeOffset_def updateLastSelection_def
      getLastSelection_def storedOffset_def Let_def)


text \<open>
  A turn in full mode: with the offset 500 stored for channel 1 and the messages 501 to
  503 in the channel, the turn writes 500 and then 503.
\<close>

lemma downloadTurn_full_mode:
  "writtenOffsets (downloadTurn 1 (messagesAfter [501, 502, 503]) pageDone 1 storedAt500)
     = [Some 500, Some 503]
   \<and> (case downloadTurn 1 (messagesAfter [501, 502, 503]) pageDone 1 storedAt500 of
         None \<Rightarrow> False
       | Some (r, d') \<Rightarrow>
           r = Returned () \<and> checkpointKept 1 storedAt500 d' \<and> resumePoint d' = 503)"
proof -
  let ?gm = "messagesAfter [501, 502, 503]"
  define w0 where "w0 = \<lparr>messageOffsetId = Some (500 :: int), channelId = Some (1 :: int)\<rparr>"
  define dR where "dR = storedAt500\<lparr>lastSelectionFile := Some w0, selectionWrites := [w0]\<rparr>"
  define d0 where "d0 = initializeSpeedMonitor dR"
  define d1 where "d1 = d0\<lparr>events := events d0 @ [Attempt 1]\<rparr>"
  define d3 where "d3 = updateLastSelection (Some (maxId [501, 502, 503])) None d1"
  have resume: "resumeOffset 1 storedAt500 = (500, dR)"
    by (simp add: resumeOffset_def updateLastSelection_def getLastSelection_def Let_def
        storedAt500_def freshDownloader_def dR_def w0_def)
  have sel: "selectiveMode d0 = False" "selectiveMode d1 = False"
    by (simp_all add: d1_def d0_def initializeSpeedMonitor_def dR_def storedAt500_def
        freshDownloader_def)
  have offset: "Some 500 = (if selectiveMode d0 \<and> Some (500 :: int) = Some 0
                            then Some (startFromMessageId d0) else Some 500)"
    by simp
  have fetch: "retryOperation (?gm (Some 500)) 5 d0 = (Returned (Some [501, 502, 503]), d1)"
    unfolding retryOperation_def
    by (subst retryFrom_success [where ?d1.0 = d1 and r = "[501, 502, 503]"])
       (simp_all add: messagesAfter_def d1_def)
  have filtered: "[501, 502, 503] = (if selectiveMode d1
        then filter (\<lambda>i. i \<ge> startFromMessageId d1) [501, 502, 503] else [501, 502, 503])"
    by (simp add: sel)
  have page: "pageDone (sort [501, 502, 503]) d1 = (Returned (), d1)"
    by (simp add: pageDone_def)
  have "downloadChannel (Suc 0) ?gm pageDone (Some 500) dR = Some (Returned (), d3)"
    by (subst downloadChannel_page [where getMessages = ?gm and processPage = pageDone,
          OF d0_def offset fetch _ filtered page d3_def])
       (simp_all add: MESSAGE_LIMIT_CONFIG_def)
  then have run: "downloadTurn 1 ?gm pageDone 1 storedAt500 = Some (Returned (), d3)"
    by (simp add: downloadTurn_def resume)
  have onDisk: "lastSelectionFile d1 = Some w0" "selectionWrites d1 = [w0]" "\<not> writeFails d1"
    by (simp_all add: d1_def d0_def initializeSpeedMonitor_def dR_def storedAt500_def
        freshDownloader_def)
  have top: "maxId [501, 502, 503] = Some 503" by (simp add: maxId_def)
  have written: "map messageOffsetId (selectionWrites d3) = [Some 500, Some 503]"
    "resumePoint d3 = 503"
    by (simp_all add: d3_def top updateLastSelection_def getLastSelection_def Let_def onDisk
        w0_def resumePoint_def storedOffset_def)
  have chan: "channelId (getLastSelection storedAt500) = Some 1"
    by (simp add: getLastSelection_def storedAt500_def freshDownloader_def)
  have mode: "0 \<le> startFromMessageId storedAt500"
    "selectiveMode storedAt500 \<longrightarrow>
       resumePoint storedAt500 = 0 \<or> startFromMessageId storedAt500 \<le> resumePoint storedAt500 + 1"
    by (simp_all add: storedAt500_def freshDownloader_def)
  from downloadTurn_monotone [of ?gm pageDone storedAt500 1 1 "Returned ()" d3]
  have "checkpointKept 1 storedAt500 d3"
    using keepsSelection_messagesAfter keepsSelection_pageDone sourceAscending_messagesAfter
      chan mode run by simp
  then show ?thesis unfolding run writtenOffsets_def by (simp add: written)
qed

text \<open>
  Claim C4 at a restart on the same channel in selective mode. The file holds the offset
  500 for channel 1, the channel holds the messages 501 to 503, and the user starts again
  on channel 1 in selective mode from the message id 1000. \<^verbatim>\<open>getMessages\<close> answers
  with the three messages after 500, the filter \<^verbatim>\<open>msg.id >= this.startFromMessageId\<close>
  (lines 1708 to 1711) drops them all, and \<^verbatim>\<open>Math.max(...[])\<close> of line 1772 is
  \<^verbatim>\<open>-Infinity\<close>, which \<^verbatim>\<open>updateLastSelection\<close> writes as \<^verbatim>\<open>null\<close>: the
  turn returns normally and the persisted offset has gone from 500 to none, so that the
  next start resumes from 0. Nothing guards the maximum of an empty page.
\<close>

theorem checkpoint_lost_in_selective_mode:
  "storedOffset selectiveFrom1000 = Some 500
   \<and> channelId (getLastSelection selectiveFrom1000) = Some 1
   \<and> returnedNormally
         (downloadTurn 1 (messagesAfter [501, 502, 503]) pageDone 1 selectiveFrom1000)
   \<and> writtenOffsets
         (downloadTurn 1 (messagesAfter [501, 502, 503]) pageDone 1 selectiveFrom1000)
       = [Some 500, None]
   \<and> offsetAfter
         (downloadTurn 1 (messagesAfter [501, 502, 503]) pageDone 1 selectiveFrom1000)
       = None"
proof -
  let ?gm = "messagesAfter [501, 502, 503]"
  define w0 where "w0 = \<lparr>messageOffsetId = Some (500 :: int), channelId = Some (1 :: int)\<rparr>"
  define dR where
    "dR = selectiveFrom1000\<lparr>lastSelectionFile := Some w0, selectionWrites := [w0]\<rparr>"
  define d0 where "d0 = initializeSpeedMonitor dR"
  define d1 where "d1 = d0\<lparr>events := events d0 @ [Attempt 1]\<rparr>"
  define d3 where "d3 = updateLastSelection (Some (maxId [])) None d1"
  have before: "storedOffset selectiveFrom1000 = Some 500"
    "channelId (getLastSelection selectiveFrom1000) = Some 1"
    by (simp_all add: selectiveFrom1000_def storedAt500_def freshDownloader_def
        storedOffset_def getLastSelection_def)
  have resume: "resumeOffset 1 selectiveFrom1000 = (500, dR)"
    by (simp add: resumeOffset_def updateLastSelection_def getLastSelection_def Let_def
        selectiveFrom1000_def storedAt500_def freshDownloader_def dR_def w0_def)
  have sel: "selectiveMode d0" "selectiveMode d1" "startFromMessageId d1 = 1000"
    by (simp_all add: d1_def d0_def initializeSpeedMonitor_def dR_def selectiveFrom1000_def
        storedAt500_def freshDownloader_def)
  have offset: "Some 500 = (if selectiveMode d0 \<and> Some (500 :: int) = Some 0
                            then Some (startFromMessageId d0) else Some 500)"
    by simp
  have fetch: "retryOperation (?gm (Some 500)) 5 d0 = (Returned (Some [501, 502, 503]), d1)"
    unfolding retryOperation_def
    by (subst retryFrom_success [where ?d1.0 = d1 and r = "[501, 502, 503]"])
       (simp_all add: messagesAfter_def d1_def)
  have filtered: "[] = (if selectiveMode d1
        then filter (\<lambda>i. i \<ge> startFromMessageId d1) [501, 502, 503] else [501, 502, 503])"
    by (simp add: sel)
  have page: "pageDone (sort []) d1 = (Returned (), d1)"
    by (simp add: pageDone_def)
  have "downloadChannel (Suc 0) ?gm pageDone (Some 500) dR = Some (Returned (), d3)"
    by (subst downloadChannel_page [where getMessages = ?gm and processPage = pageDone,
          OF d0_def offset fetch _ filtered page d3_def])
       (simp_all add: MESSAGE_LIMIT_CONFIG_def)
  then have run: "downloadTurn 1 ?gm pageDone 1 selectiveFrom1000 = Some (Returned (), d3)"
    by (simp add: downloadTurn_def resume)
  have onDisk: "lastSelectionFile d1 = Some w0" "selectionWrites d1 = [w0]" "\<not> writeFails d1"
    by (simp_all add: d1_def d0_def initializeSpeedMonitor_def dR_def selectiveFrom1000_def
        storedAt500_def freshDownloader_def)
  have written: "map messageOffsetId (selectionWrites d3) = [Some 500, None]"
    "storedOffset d3 = None"
    by (simp_all add: d3_def maxId_def updateLastSelection_def getLastSelection_def Let_def
        onDisk w0_def storedOffset_def)
  show ?thesis
    unfolding run writtenOffsets_def returnedNormally_def offsetAfter_def
    by (simp add: written before)
qed

section \<open>Properties of the download of one message\<close>

lemma files_updateSpeed [simp]: "files (updateSpeed bytes d) = files d"
  by (simp add: updateSpeed_def Let_def split: option.splits prod.splits)

lemma files_resetFileReferenceTracking [simp]: "files (resetFileReferenceTracking d) = files d"
  by (simp add: resetFileReferenceTracking_def)

lemma totalDownloaded_updateSpeed [simp]:
  "totalDownloaded (updateSpeed bytes d) = totalDownloaded d"
  by (simp add: updateSpeed_def Let_def split: option.splits prod.splits)

lemma totalDownloaded_resetFileReferenceTracking [simp]:
  "totalDownloaded (resetFileReferenceTracking d) = totalDownloaded d"
  by (simp add: resetFileReferenceTracking_def)








lemma files_precisionDelay [simp]: "files (precisionDelay ms d) = files d"
  by (simp add: precisionDelay_def sleep_def Let_def)







end
